theory Spec2Isabelle
  imports Main "HOL-Library.Word" "HOL-Library.Multiset"
begin

section \<open>Data model of table.go\<close>

text \<open>
  Transaction ids are Go \<open>uint64\<close> values. A \<open>*TableBlock\<close> is a pointer: the model
  keeps the blocks in a store indexed by \<open>blockId\<close> and allocates fresh ids from a
  counter, so that pointer comparison (\<open>t.active != block\<close>) is comparison of ids and
  \<open>nil\<close> is \<open>None\<close>.
\<close>

type_synonym txid = "64 word"
type_synonym blockId = nat

text \<open>
  Errors as values. \<open>Errorf p e\<close> is \<open>fmt.Errorf("p: %w", e)\<close>, \<open>ErrorNew\<close> is
  \<open>errors.New\<close>, \<open>ExternalError\<close> is an error handed back by a collaborator behind an
  interface (the WAL, a scan source, a user callback, the Parquet writer), \<open>Panic\<close> is a
  Go runtime panic.
\<close>

datatype error =
    ErrNoSchema
  | ErrTableClosing
  | Errorf string error
  | ErrorNew string
  | ExternalError string
  | Panic string
  | EOF
  | Canceled

record ctx =
  canceled :: bool

datatype scalar = Int64 "64 word" | Str string | Null

record arrowRecord =
  schemaFields :: "string list"
  columns :: "scalar list list"
  numRows :: nat

record ULID =
  ulidTime :: nat
  ulidEntropy :: nat

record tableConfig =
  RowGroupSize :: "64 word"
  BlockReaderLimit :: "64 word"
  DisableWal :: bool

datatype walEntry =
    NewTableBlock string ULID tableConfig
  | TableBlockPersisted string ULID
  | Write string "8 word list"
  | RecordBatch string arrowRecord

text \<open>
  Modelled from the spec: the WAL is an interface (\<open>type WAL interface\<close>); no
  implementation is part of table.go. The spec's contract is that \<open>Log\<close> and
  \<open>LogRecord\<close> return only after the entry is durable at the given tx. The model keeps
  the durable entries in order; \<open>faults\<close> is a fault-injection script, one flag per call,
  \<open>True\<close> making that call fail without logging (an exhausted script never fails).
  \<open>nop\<close> is \<open>walpkg.NopWAL\<close>, which newTable installs when \<open>DisableWal\<close> is set.
\<close>

record WAL =
  nop :: bool
  entries :: "(txid \<times> walEntry) list"
  faults :: "bool list"

definition walLog :: "txid \<Rightarrow> walEntry \<Rightarrow> WAL \<Rightarrow> error option \<times> WAL" where
  "walLog x e w =
     (if nop w then (None, w)
      else case faults w of
          [] \<Rightarrow> (None, w\<lparr>entries := entries w @ [(x, e)]\<rparr>)
        | f # fs \<Rightarrow>
            if f then (Some (ExternalError ''wal''), w\<lparr>faults := fs\<rparr>)
            else (None, w\<lparr>entries := entries w @ [(x, e)], faults := fs\<rparr>))"

definition walLogRecord :: "txid \<Rightarrow> string \<Rightarrow> arrowRecord \<Rightarrow> WAL \<Rightarrow> error option \<times> WAL" where
  "walLogRecord x table r w = walLog x (RecordBatch table r) w"

record completedBlock =
  cb_prevTx :: txid
  cb_tx :: txid

record TableBlock =
  ulid :: ULID
  minTx :: txid
  prevTx :: txid
  sizeBytes :: int
  lastSnapshotSize :: int
  index :: "(txid \<times> arrowRecord) list"
  pendingWritersWg :: int
  pendingReadersWg :: int

record tableMetrics =
  blockRotated :: nat
  rowsInserted :: nat
  zeroRowsInserted :: nat
  rowInsertSize :: "nat list"
  lastCompletedBlockTx :: txid
  numParts :: int

datatype scanItem =
    RecordItem arrowRecord
  | DynamicRowGroupItem "string list"
  | OtherItem

text \<open>
  A scan source behind the \<open>DataSource\<close> interface (\<open>t.db.sources\<close>): for the
  \<open>lastBlockTimestamp\<close> it is given, what its \<open>Scan\<close> hands to the emit callback, in
  order, and the error it then returns, if any.
\<close>

type_synonym dataSource = "nat \<Rightarrow> scanItem list \<times> error option"

text \<open>
  The fields of \<open>DB\<close> and its column store that table.go reads. \<open>txClock\<close> and
  \<open>committed\<close> stand for the transaction clock behind \<open>db.begin()\<close>.
\<close>

record DB =
  dbName :: string
  txClock :: txid
  committed :: "txid list"
  activeMemorySize :: int
  sources :: "dataSource list"

text \<open>
  Modelled from the spec: \<open>db.begin\<close> is not part of table.go. The spec's TxClock
  assigns monotonic 64-bit transaction ids, a write-tx being assigned at the start of a
  write and committed by a commit hook. The model assigns the successor of the last id
  and records the commits in order.
\<close>

definition begin_tx :: "DB \<Rightarrow> txid \<times> DB" where
  "begin_tx d = (txClock d + 1, d\<lparr>txClock := txClock d + 1\<rparr>)"

definition commit :: "txid \<Rightarrow> DB \<Rightarrow> DB" where
  "commit x d = d\<lparr>committed := committed d @ [x]\<rparr>"

text \<open>
  The table. \<open>pendingBlocks\<close> is a Go map used as a set; the model keeps its keys in a
  duplicate-free list (the iteration order of a Go map is unspecified, none of the
  statements below depends on it). \<open>spawned\<close> lists the blocks for which
  \<open>go t.writeBlock(block, true)\<close> has been started. \<open>ulidSupply\<close> and \<open>ulidCount\<close>
  stand for the wall clock and the random source read by \<open>generateULID\<close>.
\<close>

record Table =
  db :: DB
  name :: string
  metrics :: tableMetrics
  config :: tableConfig
  blocks :: "blockId \<Rightarrow> TableBlock"
  nextBlock :: blockId
  pendingBlocks :: "blockId list"
  completedBlocks :: "completedBlock list"
  lastCompleted :: txid
  active :: "blockId option"
  wal :: WAL
  closing :: bool
  spawned :: "blockId list"
  ulidSupply :: "nat \<Rightarrow> ULID"
  ulidCount :: nat

subsection \<open>writeBlock: the completed-block watermark\<close>

text \<open>
  Lines 424-435 of table.go: the loop that pops the head of \<open>completedBlocks\<close> while
  its \<open>prevTx\<close> is the watermark. The gauge takes \<open>float64(t.lastCompleted)\<close>; the
  model keeps the integer.
\<close>

function writeBlock_loop :: "Table \<Rightarrow> Table" where
  "writeBlock_loop t =
     (case completedBlocks t of
        [] \<Rightarrow> t
      | c # cs \<Rightarrow>
          if cb_prevTx c \<noteq> lastCompleted t then t
          else writeBlock_loop
                 (t\<lparr>lastCompleted := cb_tx c,
                    metrics := (metrics t)\<lparr>lastCompletedBlockTx := cb_tx c\<rparr>,
                    completedBlocks := cs\<rparr>))"
  by pat_completeness auto
termination
  by (relation "measure (\<lambda>t. length (completedBlocks t))") auto

text \<open>
  Lines 419-436: under the table lock, append the block's pair, sort by \<open>prevTx\<close>
  (\<open>sort.Slice\<close> with \<open>prevTx <\<close>; the order it gives to equal keys is unspecified, the
  model's sort keeps them in place), then run the loop.
\<close>

definition writeBlock_completed :: "TableBlock \<Rightarrow> Table \<Rightarrow> Table" where
  "writeBlock_completed block t =
     writeBlock_loop
       (t\<lparr>completedBlocks :=
            sort_key cb_prevTx
              (completedBlocks t @ [\<lparr>cb_prevTx = prevTx block, cb_tx = minTx block\<rparr>])\<rparr>)"

subsection \<open>Blocks: creation, rotation, writer admission\<close>

definition generateULID :: "Table \<Rightarrow> ULID \<times> Table" where
  "generateULID t = (ulidSupply t (ulidCount t), t\<lparr>ulidCount := Suc (ulidCount t)\<rparr>)"

text \<open>
  The function \<open>newTableBlock(table, prevTx, tx, id)\<close>: an empty index
  (\<open>NewLSM\<close>), a zero size counter, zero wait-groups.
\<close>

definition newTableBlock :: "txid \<Rightarrow> txid \<Rightarrow> ULID \<Rightarrow> TableBlock" where
  "newTableBlock prev x i =
     \<lparr>ulid = i, minTx = x, prevTx = prev, sizeBytes = 0, lastSnapshotSize = 0,
      index = [], pendingWritersWg = 0, pendingReadersWg = 0\<rparr>"

text \<open>
  The method \<open>(t *Table) newTableBlock(prevTx, tx, id)\<close>: log the new block to the
  WAL, then make it the active block. \<open>id.MarshalBinary()\<close> of a ULID does not fail.
\<close>

definition Table_newTableBlock :: "txid \<Rightarrow> txid \<Rightarrow> ULID \<Rightarrow> Table \<Rightarrow> error option \<times> Table" where
  "Table_newTableBlock prev x i t =
     (case walLog x (NewTableBlock (name t) i (config t)) (wal t) of
        (Some e, w) \<Rightarrow> (Some e, t\<lparr>wal := w\<rparr>)
      | (None, w) \<Rightarrow>
          (None, t\<lparr>wal := w,
                   blocks := (blocks t)(nextBlock t := newTableBlock prev x i),
                   active := Some (nextBlock t),
                   nextBlock := Suc (nextBlock t)\<rparr>))"

definition insertPending :: "blockId \<Rightarrow> blockId list \<Rightarrow> blockId list" where
  "insertPending b bs = (if b \<in> set bs then bs else bs @ [b])"

text \<open>
  \<open>RotateBlock\<close>, under the table lock. The debug log evaluates \<open>block.Size()\<close>, a nil
  dereference when both \<open>t.active\<close> and \<open>block\<close> are nil. The deferred \<open>commit()\<close>
  runs on both returns after \<open>db.begin()\<close>. \<open>ctx\<close> is not read.
\<close>

definition RotateBlock :: "ctx \<Rightarrow> blockId option \<Rightarrow> Table \<Rightarrow> error option \<times> Table" where
  "RotateBlock c block t =
     (if active t \<noteq> block then (None, t)
      else case block of
          None \<Rightarrow> (Some (Panic ''nil pointer dereference''), t)
        | Some b \<Rightarrow>
            (case begin_tx (db t) of (x, d) \<Rightarrow>
             case generateULID (t\<lparr>db := d\<rparr>) of (i, t1) \<Rightarrow>
             case Table_newTableBlock (minTx (blocks t1 b)) x i t1 of
               (Some e, t2) \<Rightarrow> (Some e, t2\<lparr>db := commit x (db t2)\<rparr>)
             | (None, t2) \<Rightarrow>
                 (None,
                  t2\<lparr>metrics := (metrics t2)\<lparr>blockRotated := Suc (blockRotated (metrics t2)),
                                             numParts := 0\<rparr>,
                     pendingBlocks := insertPending b (pendingBlocks t2),
                     spawned := spawned t2 @ [b],
                     db := commit x (db t2)\<rparr>)))"

definition ActiveBlock :: "Table \<Rightarrow> blockId option" where
  "ActiveBlock t = active t"

text \<open>
  \<open>sync.WaitGroup\<close> counters: \<open>Add(n)\<close>, and \<open>Done()\<close> which is \<open>Add(-1)\<close>. Every
  \<open>Done\<close> in table.go follows an \<open>Add(1)\<close> on the same counter.
\<close>

definition pendingWritersWg_Add :: "blockId \<Rightarrow> int \<Rightarrow> Table \<Rightarrow> Table" where
  "pendingWritersWg_Add b n t =
     t\<lparr>blocks := (blocks t)(b := (blocks t b)\<lparr>pendingWritersWg := pendingWritersWg (blocks t b) + n\<rparr>)\<rparr>"

definition pendingWritersWg_Done :: "blockId \<Rightarrow> Table \<Rightarrow> Table" where
  "pendingWritersWg_Done b t = pendingWritersWg_Add b (- 1) t"

definition pendingReadersWg_Add :: "blockId \<Rightarrow> int \<Rightarrow> Table \<Rightarrow> Table" where
  "pendingReadersWg_Add b n t =
     t\<lparr>blocks := (blocks t)(b := (blocks t b)\<lparr>pendingReadersWg := pendingReadersWg (blocks t b) + n\<rparr>)\<rparr>"

definition pendingReadersWg_Done :: "blockId \<Rightarrow> Table \<Rightarrow> Table" where
  "pendingReadersWg_Done b t = pendingReadersWg_Add b (- 1) t"

text \<open>
  \<open>ActiveWriteBlock\<close> returns the active block and its \<open>pendingWritersWg.Done\<close>; the
  model returns the block, whose release is \<open>pendingWritersWg_Done\<close>. On a table with
  no active block \<open>t.active.pendingWritersWg\<close> is a nil dereference.
\<close>

definition ActiveWriteBlock :: "Table \<Rightarrow> (error + blockId) \<times> Table" where
  "ActiveWriteBlock t =
     (if closing t then (Inl ErrTableClosing, t)
      else case active t of
          None \<Rightarrow> (Inl (Panic ''nil pointer dereference''), t)
        | Some b \<Rightarrow> (Inr b, pendingWritersWg_Add b 1 t))"

definition Size :: "TableBlock \<Rightarrow> int" where
  "Size b = sizeBytes b"

text \<open>
  \<open>appender\<close>: the \<open>for\<close> loop has no bound, so the model is a partial function and
  \<open>None\<close> means that the loop does not return. \<open>RotateBlock\<close> is called with the block
  that \<open>ActiveWriteBlock\<close> has just returned, which is not nil, so the error it hands
  back here is a returned one.
\<close>

partial_function (option) appender :: "ctx \<Rightarrow> Table \<Rightarrow> ((error + blockId) \<times> Table) option" where
  "appender c t =
     (case ActiveWriteBlock t of
        (Inl e, t1) \<Rightarrow> Some (Inl e, t1)
      | (Inr block, t1) \<Rightarrow>
          if Size (blocks t1 block) < activeMemorySize (db t1) then Some (Inr block, t1)
          else (case RotateBlock c (Some block) (pendingWritersWg_Done block t1) of
                  (Some e, t2) \<Rightarrow> Some (Inl (Errorf ''rotate block'' e), t2)
                | (None, t2) \<Rightarrow> appender c t2))"

subsection \<open>Insertion\<close>

text \<open>
  Modelled from the spec: the LSM index (\<open>NewLSM\<close>, \<open>index.Add\<close>, its \<open>Scan\<close>) is not
  part of table.go. The spec describes an append-only structure keyed by tx, every
  admitted batch of which is emitted exactly once by a scan.
\<close>

definition LSM_Add :: "txid \<Rightarrow> arrowRecord \<Rightarrow> (txid \<times> arrowRecord) list \<Rightarrow> (txid \<times> arrowRecord) list" where
  "LSM_Add x r idx = idx @ [(x, r)]"

definition LSM_Scan :: "(txid \<times> arrowRecord) list \<Rightarrow> dataSource" where
  "LSM_Scan idx = (\<lambda>lastBlockTimestamp. (map (\<lambda>(x, r). RecordItem r) idx, None))"

text \<open>
  \<open>TableBlock.InsertRecord\<close>. The deferred function observes the row count on every
  return. \<open>ctx\<close> is not read; the error returned is always nil.
\<close>

definition observeRows :: "arrowRecord \<Rightarrow> Table \<Rightarrow> Table" where
  "observeRows r t =
     t\<lparr>metrics := (metrics t)\<lparr>rowsInserted := rowsInserted (metrics t) + numRows r,
                              rowInsertSize := rowInsertSize (metrics t) @ [numRows r]\<rparr>\<rparr>"

definition TableBlock_InsertRecord ::
  "ctx \<Rightarrow> txid \<Rightarrow> arrowRecord \<Rightarrow> blockId \<Rightarrow> Table \<Rightarrow> error option \<times> Table" where
  "TableBlock_InsertRecord c x r b t =
     (if numRows r = 0 then
        (None, observeRows r
                 (t\<lparr>metrics := (metrics t)\<lparr>zeroRowsInserted := zeroRowsInserted (metrics t) + 1\<rparr>\<rparr>))
      else
        (None, observeRows r
                 (t\<lparr>blocks := (blocks t)(b := (blocks t b)\<lparr>index := LSM_Add x r (index (blocks t b))\<rparr>)\<rparr>)))"

text \<open>
  A call of \<open>Table.InsertRecord\<close> either returns its pair of results or panics. A Go
  runtime panic unwinds through the callers and table.go has no \<open>recover\<close>, so a call
  that panics hands nothing back. \<open>ActiveWriteBlock\<close> and \<open>appender\<close> carry the panic in
  the error position as \<open>Panic m\<close>; it is not an error value that a caller could test
  against nil or wrap.
\<close>

datatype 'a outcome = Returns 'a | Panics string

text \<open>
  \<open>Table.InsertRecord\<close>. The deferred calls run in reverse order on every return after
  they are registered: \<open>commit()\<close>, then \<open>close()\<close>. The nil dereference of
  \<open>ActiveWriteBlock\<close> on a table without an active block happens inside \<open>t.appender\<close>,
  before either is registered.
\<close>

definition InsertRecord_return :: "txid \<Rightarrow> blockId \<Rightarrow> Table \<Rightarrow> Table" where
  "InsertRecord_return x block t = pendingWritersWg_Done block (t\<lparr>db := commit x (db t)\<rparr>)"

definition InsertRecord ::
  "ctx \<Rightarrow> arrowRecord \<Rightarrow> Table \<Rightarrow> ((txid \<times> error option) outcome \<times> Table) option" where
  "InsertRecord c r t =
     (case appender c t of
        None \<Rightarrow> None
      | Some (Inl e, t1) \<Rightarrow>
          (case e of
             Panic m \<Rightarrow> Some (Panics m, t1)
           | _ \<Rightarrow> Some (Returns (0, Some (Errorf ''get appender'' e)), t1))
      | Some (Inr block, t1) \<Rightarrow>
          (case begin_tx (db t1) of (x, d) \<Rightarrow>
           case walLogRecord x (name t1) r (wal t1) of
             (Some e, w) \<Rightarrow>
               Some (Returns (x, Some (Errorf ''append to log'' e)),
                     InsertRecord_return x block (t1\<lparr>db := d, wal := w\<rparr>))
           | (None, w) \<Rightarrow>
               (case TableBlock_InsertRecord c x r block (t1\<lparr>db := d, wal := w\<rparr>) of
                  (Some e, t2) \<Rightarrow>
                    Some (Returns (x, Some (Errorf ''insert buffer into block'' e)),
                          InsertRecord_return x block t2)
                | (None, t2) \<Rightarrow> Some (Returns (x, None), InsertRecord_return x block t2))))"

subsection \<open>Persistence of a rotated block\<close>

text \<open>
  \<open>WaitGroup.Wait()\<close> returns once the counter is zero. The model runs each operation
  to its end in one step, so an operation that would wait gives \<open>None\<close>: it cannot run
  in that state.
\<close>

definition dropPendingBlock :: "blockId \<Rightarrow> Table \<Rightarrow> Table option" where
  "dropPendingBlock block t =
     (let t1 = t\<lparr>pendingBlocks := removeAll block (pendingBlocks t)\<rparr>
      in if pendingReadersWg (blocks t1 block) = 0 then Some t1 else None)"

text \<open>
  \<open>writeBlock\<close>, the task started by \<open>RotateBlock\<close>. \<open>persistErr\<close> is what
  \<open>block.Persist()\<close> returns (not part of table.go). The closing \<open>t.db.maintainWAL()\<close>
  is outside table.go and outside the model.
\<close>

definition writeBlock :: "blockId \<Rightarrow> bool \<Rightarrow> error option \<Rightarrow> Table \<Rightarrow> Table option" where
  "writeBlock block snapshotDB persistErr t =
     (if pendingWritersWg (blocks t block) \<noteq> 0 then None
      else case dropPendingBlock block t of
          None \<Rightarrow> None
        | Some t1 \<Rightarrow>
            (case persistErr of
               Some e \<Rightarrow> Some t1
             | None \<Rightarrow>
                 (case begin_tx (db t1) of (x, d) \<Rightarrow>
                  case walLog x (TableBlockPersisted (name t1) (ulid (blocks t1 block))) (wal t1) of
                    (Some e, w) \<Rightarrow> Some (t1\<lparr>db := commit x d, wal := w\<rparr>)
                  | (None, w) \<Rightarrow>
                      (let t2 = writeBlock_completed (blocks t1 block) (t1\<lparr>db := d, wal := w\<rparr>)
                       in Some (t2\<lparr>db := commit x (db t2)\<rparr>)))))"

subsection \<open>Scans\<close>

text \<open>
  \<open>memoryBlocks\<close>: the active block, then the pending blocks, each with one more
  pending reader, and the least ULID time among them.
\<close>

fun memoryBlocks_loop ::
  "blockId list \<Rightarrow> (blockId list \<times> nat) \<times> Table \<Rightarrow> (blockId list \<times> nat) \<times> Table" where
  "memoryBlocks_loop [] acc = acc"
| "memoryBlocks_loop (block # bs) ((mbs, ts), t) =
     memoryBlocks_loop bs
       ((mbs @ [block],
         if ulidTime (ulid (blocks t block)) < ts then ulidTime (ulid (blocks t block)) else ts),
        pendingReadersWg_Add block 1 t)"

definition memoryBlocks :: "Table \<Rightarrow> (blockId list \<times> nat) \<times> Table" where
  "memoryBlocks t =
     (case active t of
        None \<Rightarrow> (([], 0), t)
      | Some a \<Rightarrow>
          memoryBlocks_loop (pendingBlocks t)
            (([a], ulidTime (ulid (blocks t a))), pendingReadersWg_Add a 1 t))"

text \<open>
  The loop over the sources of \<open>collectRowGroups\<close>: the items pushed to the channel,
  and the error of the first source that fails.
\<close>

fun collectRowGroups_loop :: "dataSource list \<Rightarrow> nat \<Rightarrow> scanItem list \<times> error option" where
  "collectRowGroups_loop [] ts = ([], None)"
| "collectRowGroups_loop (source # ss) ts =
     (case source ts of
        (items, Some e) \<Rightarrow> (items, Some e)
      | (items, None) \<Rightarrow>
          (case collectRowGroups_loop ss ts of (rest, r) \<Rightarrow> (items @ rest, r)))"

definition collectRowGroups :: "ctx \<Rightarrow> txid \<Rightarrow> Table \<Rightarrow> (scanItem list \<times> error option) \<times> Table" where
  "collectRowGroups c x t =
     (case memoryBlocks t of ((mbs, lastBlockTimestamp), t1) \<Rightarrow>
        (collectRowGroups_loop
           (sources (db t1) @ map (\<lambda>block. LSM_Scan (index (blocks t1 block))) mbs)
           lastBlockTimestamp,
         fold pendingReadersWg_Done mbs t1))"

text \<open>
  \<open>SchemaIterator\<close>. A callback is a user function from a record to an error. The
  record a worker builds has the one field \<open>name\<close>, a string column holding the field
  names of the row group's schema.
\<close>

type_synonym callback = "arrowRecord \<Rightarrow> error option"

definition schemaNamesRecord :: "string list \<Rightarrow> arrowRecord" where
  "schemaNamesRecord names =
     \<lparr>schemaFields = [''name''], columns = [map Str names], numRows = length names\<rparr>"

text \<open>
  One turn of a worker's loop on a received row group: the record handed to the
  callback, if any, and the error that ends the worker, if any.
\<close>

definition SchemaIterator_item :: "callback \<Rightarrow> scanItem \<Rightarrow> arrowRecord option \<times> error option" where
  "SchemaIterator_item cb rg =
     (case rg of
        RecordItem r \<Rightarrow>
          (let record = schemaNamesRecord (schemaFields r) in (Some record, cb record))
      | DynamicRowGroupItem parquetFields \<Rightarrow>
          (let record = schemaNamesRecord parquetFields in (Some record, cb record))
      | OtherItem \<Rightarrow> (None, Some (ErrorNew ''unknown row group type'')))"

text \<open>
  The workers share one channel. The model is a sequential run of the goroutines: the
  row groups are consumed in channel order, the \<open>i\<close>-th by the worker that \<open>sched i\<close>
  picks, and the run ends at the first error. The result lists the records handed to
  the callbacks, each with the number of its callback.
\<close>

fun SchemaIterator_workers ::
  "callback list \<Rightarrow> (nat \<Rightarrow> nat) \<Rightarrow> nat \<Rightarrow> scanItem list \<Rightarrow> (nat \<times> arrowRecord) list \<times> error option" where
  "SchemaIterator_workers cbs sched i [] = ([], None)"
| "SchemaIterator_workers cbs sched i (rg # rgs) =
     (let k = sched i mod length cbs in
      case SchemaIterator_item (cbs ! k) rg of
        (out, Some e) \<Rightarrow> (map (Pair k) (case out of None \<Rightarrow> [] | Some r \<Rightarrow> [r]), Some e)
      | (out, None) \<Rightarrow>
          (case SchemaIterator_workers cbs sched (Suc i) rgs of
             (tr, res) \<Rightarrow> (map (Pair k) (case out of None \<Rightarrow> [] | Some r \<Rightarrow> [r]) @ tr, res)))"

text \<open>
  A worker selects on \<open>ctx.Done()\<close> before each receive; for a context that is canceled
  from the start the model takes that branch at once.
\<close>

definition SchemaIterator ::
  "ctx \<Rightarrow> txid \<Rightarrow> callback list \<Rightarrow> (nat \<Rightarrow> nat) \<Rightarrow> Table
     \<Rightarrow> ((nat \<times> arrowRecord) list \<times> error option) \<times> Table" where
  "SchemaIterator c x callbacks sched t =
     (if length callbacks = 0 then (([], Some (ErrorNew ''no callbacks provided'')), t)
      else if canceled c then (([], Some Canceled), t)
      else case collectRowGroups c x t of ((rowGroups, perr), t1) \<Rightarrow>
        (case SchemaIterator_workers callbacks sched 0 rowGroups of
           (tr, Some e) \<Rightarrow> ((tr, Some e), t1)
         | (tr, None) \<Rightarrow> ((tr, perr), t1)))"

section \<open>The Parquet row writer of table.go\<close>

text \<open>
  A Parquet row is opaque here. \<open>parquet.Rows\<close> is a reader interface: the model is
  the list of chunks the reader still holds. \<open>ReadRows(buf)\<close> fills at most
  \<open>len(buf)\<close> rows from the first chunk (a reader may return fewer rows than asked
  for), reports \<open>io.EOF\<close> once nothing is left, and fails on a \<open>ReadFault\<close>.
\<close>

type_synonym parquetRow = "scalar list"

datatype readChunk = Rows "parquetRow list" | ReadFault

fun ReadRows :: "nat \<Rightarrow> readChunk list \<Rightarrow> (nat \<times> parquetRow list \<times> error option) \<times> readChunk list" where
  "ReadRows k [] = ((0, [], Some EOF), [])"
| "ReadRows k (ReadFault # cs) = ((0, [], Some (ExternalError ''read rows'')), cs)"
| "ReadRows k (Rows rs # cs) =
     (if length rs \<le> k then ((length rs, rs, if cs = [] then Some EOF else None), cs)
      else ((k, take k rs, None), Rows (drop k rs) # cs))"

text \<open>
  The writer behind \<open>p.w\<close> (\<open>dynparquet.PooledWriter\<close>, not part of table.go):
  \<open>WriteRows\<close> adds rows to the row group being built, \<open>Flush\<close> ends that row group.
  \<open>wfaults\<close> is a fault script as for the WAL, one flag per call.
\<close>

record pooledWriter =
  rowGroups :: "parquetRow list list"
  buffered :: "parquetRow list"
  wfaults :: "bool list"

definition pw_WriteRows :: "parquetRow list \<Rightarrow> pooledWriter \<Rightarrow> error option \<times> pooledWriter" where
  "pw_WriteRows rs pw =
     (case wfaults pw of
        [] \<Rightarrow> (None, pw\<lparr>buffered := buffered pw @ rs\<rparr>)
      | f # fs \<Rightarrow>
          if f then (Some (ExternalError ''write rows''), pw\<lparr>wfaults := fs\<rparr>)
          else (None, pw\<lparr>buffered := buffered pw @ rs, wfaults := fs\<rparr>))"

definition pw_Flush :: "pooledWriter \<Rightarrow> error option \<times> pooledWriter" where
  "pw_Flush pw =
     (case wfaults pw of
        [] \<Rightarrow> (None, pw\<lparr>rowGroups := rowGroups pw @ [buffered pw], buffered := []\<rparr>)
      | f # fs \<Rightarrow>
          if f then (Some (ExternalError ''flush''), pw\<lparr>wfaults := fs\<rparr>)
          else (None, pw\<lparr>rowGroups := rowGroups pw @ [buffered pw], buffered := [], wfaults := fs\<rparr>))"

text \<open>
  \<open>parquetRowWriter\<close>. Of \<open>rowsBuf\<close> only the length matters (the slice is only ever
  cut shorter). The counters are Go \<open>int\<close>s; the model uses unbounded integers, the
  sums in \<open>writeRows\<close> staying far below \<open>2^63\<close> for buffers that fit in memory.
\<close>

record parquetRowWriter =
  writer :: pooledWriter
  rowGroupSize :: int
  maxNumRows :: int
  rowGroupRowsWritten :: int
  totalRowsWritten :: int
  rowsBuf :: nat

definition withMaxRows :: "int \<Rightarrow> parquetRowWriter \<Rightarrow> parquetRowWriter" where
  "withMaxRows m p = p\<lparr>maxNumRows := m\<rparr>"

text \<open>
  \<open>TableBlock.rowWriter\<close>. \<open>getWriter\<close> is what \<open>schema.GetWriter\<close> returns.
  \<open>int(RowGroupSize)\<close> converts a \<open>uint64\<close>: a value from \<open>2^63\<close> on becomes negative,
  and \<open>make\<close> panics on a negative length.
\<close>

definition rowWriter ::
  "Table \<Rightarrow> error + pooledWriter \<Rightarrow> (parquetRowWriter \<Rightarrow> parquetRowWriter) list
     \<Rightarrow> error + parquetRowWriter" where
  "rowWriter t getWriter options =
     (case getWriter of
        Inl e \<Rightarrow> Inl e
      | Inr pw \<Rightarrow>
          (let buffSize = (if RowGroupSize (config t) > 0 then sint (RowGroupSize (config t)) else 256)
           in if buffSize < 0 then Inl (Panic ''makeslice: len out of range'')
              else Inr (fold (\<lambda>option p. option p) options
                     \<lparr>writer = pw, rowGroupSize = sint (RowGroupSize (config t)), maxNumRows = 0,
                      rowGroupRowsWritten = 0, totalRowsWritten = 0, rowsBuf = nat buffSize\<rparr>)))"

text \<open>
  One turn of the loop of \<open>writeRows\<close>, entered when the loop condition holds, in
  three steps. First the two cuts of \<open>rowsBuf\<close>: to what the row group still takes, then
  to what \<open>maxNumRows\<close> still allows. Cutting a slice to a negative length panics.
\<close>

definition cutRowsBuf :: "parquetRowWriter \<Rightarrow> error + parquetRowWriter" where
  "cutRowsBuf p =
     (let cut1 = (rowGroupSize p > 0 \<and> rowGroupRowsWritten p + int (rowsBuf p) > rowGroupSize p)
      in if cut1 \<and> rowGroupSize p - rowGroupRowsWritten p < 0
         then Inl (Panic ''slice bounds out of range'')
         else
           (let p1 = (if cut1 then p\<lparr>rowsBuf := nat (rowGroupSize p - rowGroupRowsWritten p)\<rparr> else p);
                cut2 = (maxNumRows p1 \<noteq> 0 \<and> totalRowsWritten p1 + int (rowsBuf p1) > maxNumRows p1)
            in if cut2 \<and> maxNumRows p1 - totalRowsWritten p1 < 0
               then Inl (Panic ''slice bounds out of range'')
               else Inr (if cut2 then p1\<lparr>rowsBuf := nat (maxNumRows p1 - totalRowsWritten p1)\<rparr>
                         else p1)))"

text \<open>
  Either the function returns, or the loop goes on with a new writer state, the rest of
  the reader and the new count.
\<close>

datatype writeRows_turn =
    Return "int \<times> error option" parquetRowWriter "readChunk list"
  | Continue parquetRowWriter "readChunk list" int

text \<open>
  Last the \<open>n\<close> rows read are written, the counters advance, and a row group that has
  reached \<open>rowGroupSize\<close> is flushed and its counter reset.
\<close>

definition writeRows_written ::
  "parquetRowWriter \<Rightarrow> nat \<Rightarrow> parquetRow list \<Rightarrow> readChunk list \<Rightarrow> int \<Rightarrow> writeRows_turn" where
  "writeRows_written p n rs rows' written =
     (case pw_WriteRows rs (writer p) of
        (Some e, pw) \<Rightarrow> Return (0, Some e) (p\<lparr>writer := pw\<rparr>) rows'
      | (None, pw) \<Rightarrow>
          (let p3 = p\<lparr>writer := pw,
                       rowGroupRowsWritten := rowGroupRowsWritten p + int n,
                       totalRowsWritten := totalRowsWritten p + int n\<rparr>
           in if rowGroupSize p3 > 0 \<and> rowGroupRowsWritten p3 \<ge> rowGroupSize p3
              then
                (case pw_Flush (writer p3) of
                   (Some e, pw') \<Rightarrow> Return (0, Some e) (p3\<lparr>writer := pw'\<rparr>) rows'
                 | (None, pw') \<Rightarrow>
                     Continue (p3\<lparr>writer := pw', rowGroupRowsWritten := 0\<rparr>) rows' (written + int n))
              else Continue p3 rows' (written + int n)))"

text \<open>
  In between, the read: an error other than \<open>io.EOF\<close> returns, no row ends the loop. A
  panic of the cut ends the call; it travels in the error position as \<open>Panic m\<close> and is
  not a value that \<open>writeRows\<close> hands back.
\<close>

definition writeRows_body :: "parquetRowWriter \<Rightarrow> readChunk list \<Rightarrow> int \<Rightarrow> writeRows_turn" where
  "writeRows_body p rows written =
     (case cutRowsBuf p of
        Inl e \<Rightarrow> Return (0, Some e) p rows
      | Inr p2 \<Rightarrow>
          (case ReadRows (rowsBuf p2) rows of
             ((n, rs, err), rows') \<Rightarrow>
               if err \<noteq> None \<and> err \<noteq> Some EOF then Return (0, err) p2 rows'
               else if n = 0 then Return (written, None) p2 rows'
               else writeRows_written p2 n rs rows' written))"

text \<open>What the reader still holds: the loop goes on only after rows have been read.\<close>

fun rowsLeft :: "readChunk list \<Rightarrow> nat" where
  "rowsLeft [] = 0"
| "rowsLeft (ReadFault # cs) = Suc (rowsLeft cs)"
| "rowsLeft (Rows rs # cs) = Suc (length rs + rowsLeft cs)"

function writeRows_loop ::
  "parquetRowWriter \<Rightarrow> readChunk list \<Rightarrow> int
     \<Rightarrow> (int \<times> error option) \<times> parquetRowWriter \<times> readChunk list" where
  "writeRows_loop p rows written =
     (if maxNumRows p = 0 \<or> totalRowsWritten p < maxNumRows p then
        (case writeRows_body p rows written of
           Return res p' rows' \<Rightarrow> (res, p', rows')
         | Continue p' rows' written' \<Rightarrow> writeRows_loop p' rows' written')
      else ((written, None), p, rows))"
  by pat_completeness auto
termination
proof (relation "measure (\<lambda>(p, rows, written). rowsLeft rows)", goal_cases)
  case 1
  show ?case by simp
next
  case (2 p rows written p' rows' written')
  have rd: "\<And>k n rs err rows'. ReadRows k rows = ((n, rs, err), rows') \<Longrightarrow> n \<noteq> 0
              \<Longrightarrow> rowsLeft rows' < rowsLeft rows"
  proof -
    fix k n rs err rows'
    assume "ReadRows k rows = ((n, rs, err), rows')" and "n \<noteq> 0"
    then show "rowsLeft rows' < rowsLeft rows"
      by (induction k rows rule: ReadRows.induct) (auto split: if_splits)
  qed
  from 2(2) have "rowsLeft rows' < rowsLeft rows"
    by (auto simp: writeRows_body_def writeRows_written_def Let_def
        split: if_splits prod.splits option.splits sum.splits dest: rd)
  then show ?case by simp
qed

definition writeRows ::
  "parquetRowWriter \<Rightarrow> readChunk list \<Rightarrow> (int \<times> error option) \<times> parquetRowWriter \<times> readChunk list" where
  "writeRows p rows = writeRows_loop p rows 0"


section \<open>The Synchronize barrier\<close>

text \<open>
  Modelled from the spec: the implementation of \<open>Synchronize\<close> is not among the
  sources; only its test \<open>TestNoRaceAndSingleFinish\<close> is. The spec (4.5):
  \<open>Callback\<close> forwards to \<open>sink.Callback\<close> under a mutex; \<open>Finish\<close> decrements the
  producer counter under the mutex and, if it reaches zero, invokes \<open>sink.Finish\<close> and
  returns its result, otherwise returns nil (the mutex is taken to be held until
  \<open>Finish\<close> returns, as S1 asks that \<open>sink.Callback\<close> never runs together with
  \<open>sink.Finish\<close>); a producer registers by incrementing the
  counter before its first interaction with the barrier (in the test,
  \<open>synchronize.wg.Add(1)\<close> is the first statement of each caller). Registration must
  happen before any competing producer's final \<open>Finish\<close> sees the counter (S4).

  The producers run concurrently. The model is an interleaving of atomic steps, each
  producer being at one of the following points of its program: the number carried is
  the number of \<open>Callback\<close> calls it has still to start.
\<close>

datatype producer =
    Unregistered nat
  | Ready nat
  | CallbackLocked nat
  | InSinkCallback nat
  | CallbackReturned nat
  | FinishLocked
  | CounterZero
  | InSinkFinish
  | FinishReturning
  | Finished

text \<open>
  The barrier and its observers: who holds the mutex, how many sink invocations are
  running, how many \<open>sink.Callback\<close> and \<open>sink.Finish\<close> invocations have begun,
  whether a sink invocation ever began while another was running (\<open>overlap\<close>), and
  whether a \<open>Finish\<close> ever decremented the counter while some producer had not
  registered yet (\<open>lateFinish\<close>, a breach of S4).
\<close>

record barrier =
  producers :: "producer list"
  counter :: int
  mutex :: "nat option"
  sinkRunning :: nat
  sinkCallbacks :: nat
  sinkFinishes :: nat
  overlap :: bool
  lateFinish :: bool

fun isUnregistered :: "producer \<Rightarrow> bool" where
  "isUnregistered (Unregistered k) = True"
| "isUnregistered p = False"

text \<open>
  The next step of producer \<open>i\<close>: register; take the mutex (only when it is free) for
  a \<open>Callback\<close> or, when no \<open>Callback\<close> is left, for \<open>Finish\<close>; enter and leave the
  sink; decrement the counter; release the mutex. \<open>None\<close>: the producer cannot step
  (it waits for the mutex, or it has finished, or there is no such producer).
\<close>

definition producerStep :: "nat \<Rightarrow> barrier \<Rightarrow> barrier option" where
  "producerStep i s =
     (if length (producers s) \<le> i then None
      else case producers s ! i of
        Unregistered k \<Rightarrow>
          Some (s\<lparr>producers := (producers s)[i := Ready k], counter := counter s + 1\<rparr>)
      | Ready k \<Rightarrow>
          (if mutex s \<noteq> None then None
           else Some (s\<lparr>producers := (producers s)[i := (case k of 0 \<Rightarrow> FinishLocked
                                                             | Suc k' \<Rightarrow> CallbackLocked k')],
                        mutex := Some i\<rparr>))
      | CallbackLocked k \<Rightarrow>
          Some (s\<lparr>producers := (producers s)[i := InSinkCallback k],
                  sinkRunning := Suc (sinkRunning s),
                  sinkCallbacks := Suc (sinkCallbacks s),
                  overlap := (overlap s \<or> 0 < sinkRunning s)\<rparr>)
      | InSinkCallback k \<Rightarrow>
          Some (s\<lparr>producers := (producers s)[i := CallbackReturned k],
                  sinkRunning := sinkRunning s - 1\<rparr>)
      | CallbackReturned k \<Rightarrow>
          Some (s\<lparr>producers := (producers s)[i := Ready k], mutex := None\<rparr>)
      | FinishLocked \<Rightarrow>
          Some (s\<lparr>producers := (producers s)[i := (if counter s - 1 = 0 then CounterZero
                                                     else FinishReturning)],
                  counter := counter s - 1,
                  lateFinish := (lateFinish s \<or> list_ex isUnregistered (producers s))\<rparr>)
      | CounterZero \<Rightarrow>
          Some (s\<lparr>producers := (producers s)[i := InSinkFinish],
                  sinkRunning := Suc (sinkRunning s),
                  sinkFinishes := Suc (sinkFinishes s),
                  overlap := (overlap s \<or> 0 < sinkRunning s)\<rparr>)
      | InSinkFinish \<Rightarrow>
          Some (s\<lparr>producers := (producers s)[i := FinishReturning],
                  sinkRunning := sinkRunning s - 1\<rparr>)
      | FinishReturning \<Rightarrow>
          Some (s\<lparr>producers := (producers s)[i := Finished], mutex := None\<rparr>)
      | Finished \<Rightarrow> None)"

text \<open>
  A schedule names the producer of each step; it is a run when every step can be
  taken. \<open>start ks\<close> is the barrier before producers that will issue \<open>ks ! i\<close>
  callbacks each.
\<close>

fun run :: "nat list \<Rightarrow> barrier \<Rightarrow> barrier option" where
  "run [] s = Some s"
| "run (i # sched) s = (case producerStep i s of None \<Rightarrow> None | Some s' \<Rightarrow> run sched s')"

definition start :: "nat list \<Rightarrow> barrier" where
  "start ks =
     \<lparr>producers = map Unregistered ks, counter = 0, mutex = None, sinkRunning = 0,
      sinkCallbacks = 0, sinkFinishes = 0, overlap = False, lateFinish = False\<rparr>"

text \<open>
  Observers of a producer's program point: whether it holds the mutex, whether it is
  inside a sink invocation, whether its \<open>Finish\<close> has decremented the counter already,
  whether it is registered and has not decremented yet, and how many of its
  \<open>sink.Callback\<close> invocations have still to begin.
\<close>

fun holdsMutex :: "producer \<Rightarrow> bool" where
  "holdsMutex (Unregistered k) = False"
| "holdsMutex (Ready k) = False"
| "holdsMutex Finished = False"
| "holdsMutex p = True"

fun inSink :: "producer \<Rightarrow> bool" where
  "inSink (InSinkCallback k) = True"
| "inSink InSinkFinish = True"
| "inSink p = False"

fun decremented :: "producer \<Rightarrow> bool" where
  "decremented CounterZero = True"
| "decremented InSinkFinish = True"
| "decremented FinishReturning = True"
| "decremented Finished = True"
| "decremented p = False"

fun awaited :: "producer \<Rightarrow> bool" where
  "awaited (Unregistered k) = False"
| "awaited p = (\<not> decremented p)"

fun callbacksLeft :: "producer \<Rightarrow> int" where
  "callbacksLeft (Unregistered k) = int k"
| "callbacksLeft (Ready k) = int k"
| "callbacksLeft (CallbackLocked k) = int k + 1"
| "callbacksLeft (InSinkCallback k) = int k"
| "callbacksLeft (CallbackReturned k) = int k"
| "callbacksLeft p = 0"

text \<open>
  \<open>cnt P ps\<close>: how many producers satisfy \<open>P\<close>. \<open>mutexInv\<close>: only the owner recorded in
  the mutex is at a program point inside a critical section.
\<close>

definition cnt :: "(producer \<Rightarrow> bool) \<Rightarrow> producer list \<Rightarrow> int" where
  "cnt P ps = int (length (filter P ps))"

definition mutexInv :: "producer list \<Rightarrow> nat option \<Rightarrow> bool" where
  "mutexInv ps m = (\<forall>j<length ps. holdsMutex (ps ! j) \<longrightarrow> m = Some j)"

text \<open>
  The invariant of the barrier for producers issuing \<open>ks\<close> callbacks: the mutex has one
  owner; the number of running sink invocations is the number of producers inside the
  sink, and none began while another ran; callbacks begun and callbacks left add up to
  the sum of \<open>ks\<close>; the counter is the number of registered producers that have not
  decremented it. As long as no \<open>Finish\<close> decremented before a registration, a
  decrement implies that everybody is registered, and \<open>sink.Finish\<close> has begun or is
  about to begin exactly when every producer has decremented.
\<close>

definition barrierInv :: "nat list \<Rightarrow> barrier \<Rightarrow> bool" where
  "barrierInv ks s =
     (length (producers s) = length ks
      \<and> mutexInv (producers s) (mutex s)
      \<and> int (sinkRunning s) = cnt inSink (producers s)
      \<and> \<not> overlap s
      \<and> int (sinkCallbacks s) + sum_list (map callbacksLeft (producers s)) = int (sum_list ks)
      \<and> counter s = cnt awaited (producers s)
      \<and> cnt isUnregistered (producers s) + cnt awaited (producers s)
            + cnt decremented (producers s) = int (length ks)
      \<and> (\<not> lateFinish s \<longrightarrow>
            (0 < cnt decremented (producers s) \<longrightarrow> cnt isUnregistered (producers s) = 0)
            \<and> int (sinkFinishes s) + cnt (\<lambda>p. p = CounterZero) (producers s)
                = (if cnt decremented (producers s) = int (length ks) \<and> ks \<noteq> [] then 1 else 0)))"

text \<open>
  Two schedules of two producers. In \<open>handOver\<close> both register first; the first
  producer forwards one batch, the second finishes, the first forwards another batch
  and finishes last. In \<open>early\<close> the first producer finishes before the second has
  registered.
\<close>

definition handOver :: "nat list" where
  "handOver = [0, 1, 0, 0, 0, 0, 1, 1, 1, 0, 0, 0, 0, 0, 0, 0, 0, 0]"

definition early :: "nat list" where
  "early = [0, 0, 0, 0, 0, 0, 1, 1, 1, 1, 1, 1]"

section \<open>Notions used in the statements\<close>

text \<open>
  A list of completed-block pairs is contiguous from a watermark when each pair starts
  where the one before it ended; \<open>chainEnd\<close> is where such a list ends.
\<close>

fun contiguous :: "txid \<Rightarrow> completedBlock list \<Rightarrow> bool" where
  "contiguous lc [] = True"
| "contiguous lc (c # cs) = (cb_prevTx c = lc \<and> contiguous (cb_tx c) cs)"

fun chainEnd :: "txid \<Rightarrow> completedBlock list \<Rightarrow> txid" where
  "chainEnd lc [] = lc"
| "chainEnd lc (c # cs) = chainEnd (cb_tx c) cs"

text \<open>
  The blocks a scan reads from memory (the active block and the pending ones, as
  \<open>memoryBlocks\<close> collects them) and the batches their indexes hold.
\<close>

definition memoryBlockIds :: "Table \<Rightarrow> blockId list" where
  "memoryBlockIds t = (case active t of None \<Rightarrow> [] | Some a \<Rightarrow> a # pendingBlocks t)"

definition memoryRecords :: "Table \<Rightarrow> (txid \<times> arrowRecord) list" where
  "memoryRecords t = concat (map (\<lambda>block. index (blocks t block)) (memoryBlockIds t))"

text \<open>
  \<open>errors.Is(err, context.Canceled)\<close>: the error is the cancellation error or wraps
  it (\<open>fmt.Errorf\<close> with \<open>%w\<close>).
\<close>

fun isCanceled :: "error \<Rightarrow> bool" where
  "isCanceled Canceled = True"
| "isCanceled (Errorf p e) = isCanceled e"
| "isCanceled e = False"

text \<open>
  Every block the table points to has been allocated: a Go pointer is never dangling,
  and a new block is a fresh pointer.
\<close>

definition allocated :: "Table \<Rightarrow> bool" where
  "allocated t =
     ((case active t of None \<Rightarrow> True | Some a \<Rightarrow> a < nextBlock t)
      \<and> list_all (\<lambda>block. block < nextBlock t) (pendingBlocks t))"

subsection \<open>Concrete inputs\<close>

definition liveCtx :: ctx where
  "liveCtx = \<lparr>canceled = False\<rparr>"

definition canceledCtx :: ctx where
  "canceledCtx = \<lparr>canceled = True\<rparr>"

definition record3 :: arrowRecord where
  "record3 = \<lparr>schemaFields = [''v''], columns = [[Int64 1, Int64 2, Int64 3]], numRows = 3\<rparr>"

definition emptyRecord :: arrowRecord where
  "emptyRecord = \<lparr>schemaFields = [''v''], columns = [[]], numRows = 0\<rparr>"

text \<open>
  A table with one empty active block (block 0, active since tx 1), a WAL with the
  given fault script and the given \<open>activeMemorySize\<close>.
\<close>

definition exampleTable :: "int \<Rightarrow> bool list \<Rightarrow> Table" where
  "exampleTable ams fs =
     \<lparr>db = \<lparr>dbName = ''db'', txClock = 1, committed = [1], activeMemorySize = ams, sources = []\<rparr>,
      name = ''t'',
      metrics = \<lparr>blockRotated = 0, rowsInserted = 0, zeroRowsInserted = 0, rowInsertSize = [],
                 lastCompletedBlockTx = 0, numParts = 0\<rparr>,
      config = \<lparr>RowGroupSize = 0, BlockReaderLimit = 1, DisableWal = False\<rparr>,
      blocks = (\<lambda>k. newTableBlock 0 1 \<lparr>ulidTime = 0, ulidEntropy = 0\<rparr>),
      nextBlock = 1, pendingBlocks = [], completedBlocks = [], lastCompleted = 0,
      active = Some 0,
      wal = \<lparr>nop = False, entries = [], faults = fs\<rparr>,
      closing = False, spawned = [],
      ulidSupply = (\<lambda>n. \<lparr>ulidTime = Suc n, ulidEntropy = 0\<rparr>), ulidCount = 0\<rparr>"

text \<open>
  The same table when it is read-only (\<open>t.active == nil\<close>, the case that
  \<open>memoryBlocks\<close> tests for) and when it is closing.
\<close>

definition readOnlyTable :: Table where
  "readOnlyTable = (exampleTable 100 [])\<lparr>active := None\<rparr>"

definition closingTable :: Table where
  "closingTable = (exampleTable 100 [])\<lparr>closing := True\<rparr>"

text \<open>
  Blocks A (tx 0 to 1), B (1 to 2) and C (2 to 3) were rotated in this order; C has
  been persisted first, so its pair waits in \<open>completedBlocks\<close>.
\<close>

definition watermarkTable :: Table where
  "watermarkTable = (exampleTable 100 [])\<lparr>completedBlocks := [\<lparr>cb_prevTx = 2, cb_tx = 3\<rparr>]\<rparr>"

definition blockA :: TableBlock where
  "blockA = newTableBlock 0 1 \<lparr>ulidTime = 0, ulidEntropy = 0\<rparr>"

text \<open>The same table with its active block at the threshold of 100 bytes.\<close>

definition fullTable :: Table where
  "fullTable = (exampleTable 100 [])\<lparr>blocks := (\<lambda>k. (newTableBlock 0 1 \<lparr>ulidTime = 0, ulidEntropy = 0\<rparr>)\<lparr>sizeBytes := 100\<rparr>)\<rparr>"

subsection \<open>Notions and inputs for the row writer\<close>

text \<open>
  The row groups of a writer are within \<open>rowGroupSize\<close>: every flushed row group and
  the one being built hold at most \<open>rowGroupSize\<close> rows, and \<open>rowGroupRowsWritten\<close>
  counts the rows of the one being built.
\<close>

definition rowGroupInv :: "parquetRowWriter \<Rightarrow> bool" where
  "rowGroupInv p =
     (list_all (\<lambda>g. int (length g) \<le> rowGroupSize p) (rowGroups (writer p))
      \<and> int (length (buffered (writer p))) = rowGroupRowsWritten p
      \<and> rowGroupRowsWritten p \<le> rowGroupSize p)"

text \<open>
  What a call of \<open>writeRows\<close> may do to the writer: the limits stay, the total grows,
  it ends within \<open>maxNumRows\<close> unless nothing was written, and the row groups stay
  within \<open>rowGroupSize\<close>, the new ones holding exactly \<open>rowGroupSize\<close> rows.
\<close>

definition writesWithin :: "parquetRowWriter \<Rightarrow> parquetRowWriter \<Rightarrow> bool" where
  "writesWithin p p' =
     (maxNumRows p' = maxNumRows p \<and> rowGroupSize p' = rowGroupSize p
      \<and> totalRowsWritten p \<le> totalRowsWritten p'
      \<and> (maxNumRows p \<noteq> 0 \<longrightarrow>
            totalRowsWritten p' = totalRowsWritten p \<or> totalRowsWritten p' \<le> maxNumRows p)
      \<and> (0 < rowGroupSize p \<and> rowGroupInv p \<longrightarrow>
            rowGroupInv p'
            \<and> (\<exists>gs. rowGroups (writer p') = rowGroups (writer p) @ gs
                  \<and> list_all (\<lambda>g. int (length g) = rowGroupSize p) gs)))"

text \<open>
  The rows a reader still holds, in order, and the rows a Parquet writer has been given,
  in order: those of the flushed row groups, then those of the row group being built.
\<close>

fun allRows :: "readChunk list \<Rightarrow> parquetRow list" where
  "allRows [] = []"
| "allRows (Rows rs # cs) = rs @ allRows cs"
| "allRows (ReadFault # cs) = allRows cs"

definition writtenRows :: "pooledWriter \<Rightarrow> parquetRow list" where
  "writtenRows pw = concat (rowGroups pw) @ buffered pw"

text \<open>
  A call that nothing hinders: the reader never fails and never hands back an empty
  chunk before its end, the Parquet writer never fails, the buffer is not empty, and
  the row group being built is not full yet.
\<close>

fun plainReader :: "readChunk list \<Rightarrow> bool" where
  "plainReader [] = True"
| "plainReader (Rows rs # cs) = (rs \<noteq> [] \<and> plainReader cs)"
| "plainReader (ReadFault # cs) = False"

definition unhindered :: "parquetRowWriter \<Rightarrow> readChunk list \<Rightarrow> bool" where
  "unhindered p rows =
     (plainReader rows \<and> wfaults (writer p) = [] \<and> 0 < rowsBuf p
      \<and> (0 < rowGroupSize p \<longrightarrow> rowGroupRowsWritten p < rowGroupSize p))"

text \<open>
  How many rows such a call is to write: all the reader holds, or with a limit what is
  left of the limit, if that is less.
\<close>

definition rowsAllowed :: "parquetRowWriter \<Rightarrow> readChunk list \<Rightarrow> int" where
  "rowsAllowed p rows =
     (if maxNumRows p = 0 then int (length (allRows rows))
      else max 0 (min (int (length (allRows rows))) (maxNumRows p - totalRowsWritten p)))"

text \<open>A table with row groups of two rows, an empty writer and a reader of five rows.\<close>

definition emptyWriter :: pooledWriter where
  "emptyWriter = \<lparr>rowGroups = [], buffered = [], wfaults = []\<rparr>"

definition groupedTable :: Table where
  "groupedTable = (exampleTable 100 [])\<lparr>config := \<lparr>RowGroupSize = 2, BlockReaderLimit = 1, DisableWal = False\<rparr>\<rparr>"

definition fiveRows :: "readChunk list" where
  "fiveRows = [Rows [[Int64 1], [Int64 2], [Int64 3], [Int64 4], [Int64 5]]]"

subsection \<open>Notions and inputs for the schema scan\<close>

text \<open>The field names of the schema of a row group.\<close>

definition itemFields :: "scanItem \<Rightarrow> string list" where
  "itemFields rg = (case rg of RecordItem r \<Rightarrow> schemaFields r | DynamicRowGroupItem fs \<Rightarrow> fs | OtherItem \<Rightarrow> [])"

text \<open>
  A table with one external source that hands over three row groups, next to its
  (empty) active block, and a callback that accepts every record.
\<close>

definition threeGroups :: dataSource where
  "threeGroups = (\<lambda>lastBlockTimestamp.
     ([DynamicRowGroupItem [''a''], DynamicRowGroupItem [''a'', ''b''], DynamicRowGroupItem [''a'']], None))"

definition scanTable :: Table where
  "scanTable = (exampleTable 100 [])\<lparr>db := (db (exampleTable 100 []))\<lparr>sources := [threeGroups]\<rparr>\<rparr>"

definition okCallback :: callback where
  "okCallback = (\<lambda>r. None)"


section \<open>The completed-block watermark\<close>

declare writeBlock_loop.simps [simp del]

lemma loop_nil: "completedBlocks t = [] \<Longrightarrow> writeBlock_loop t = t"
  by (subst writeBlock_loop.simps) simp

lemma loop_stop: "completedBlocks t = c # cs \<Longrightarrow> cb_prevTx c \<noteq> lastCompleted t \<Longrightarrow> writeBlock_loop t = t"
  by (subst writeBlock_loop.simps) simp

lemma loop_go: "completedBlocks t = c # cs \<Longrightarrow> cb_prevTx c = lastCompleted t \<Longrightarrow>
  writeBlock_loop t = writeBlock_loop (t\<lparr>lastCompleted := cb_tx c,
                    metrics := (metrics t)\<lparr>lastCompletedBlockTx := cb_tx c\<rparr>,
                    completedBlocks := cs\<rparr>)"
  by (subst writeBlock_loop.simps) simp

lemma loop_char:
  "\<exists>popped. completedBlocks t = popped @ completedBlocks (writeBlock_loop t)
     \<and> contiguous (lastCompleted t) popped
     \<and> lastCompleted (writeBlock_loop t) = chainEnd (lastCompleted t) popped
     \<and> (completedBlocks (writeBlock_loop t) = []
          \<or> cb_prevTx (hd (completedBlocks (writeBlock_loop t))) \<noteq> lastCompleted (writeBlock_loop t))"
proof (induction t rule: writeBlock_loop.induct)
  case (1 t)
  show ?case
  proof (cases "completedBlocks t")
    case Nil
    then show ?thesis by (simp add: loop_nil)
  next
    case (Cons c cs)
    show ?thesis
    proof (cases "cb_prevTx c = lastCompleted t")
      case False
      with Cons have "writeBlock_loop t = t" by (simp add: loop_stop)
      with Cons False show ?thesis by (intro exI[of _ "[]"]) simp
    next
      case True
      let ?t1 = "t\<lparr>lastCompleted := cb_tx c,
                    metrics := (metrics t)\<lparr>lastCompletedBlockTx := cb_tx c\<rparr>,
                    completedBlocks := cs\<rparr>"
      have eq: "writeBlock_loop t = writeBlock_loop ?t1" using Cons True by (rule loop_go)
      from "1.IH"[OF Cons] True obtain popped where
        p: "completedBlocks ?t1 = popped @ completedBlocks (writeBlock_loop ?t1)"
           "contiguous (lastCompleted ?t1) popped"
           "lastCompleted (writeBlock_loop ?t1) = chainEnd (lastCompleted ?t1) popped"
           "completedBlocks (writeBlock_loop ?t1) = []
          \<or> cb_prevTx (hd (completedBlocks (writeBlock_loop ?t1))) \<noteq> lastCompleted (writeBlock_loop ?t1)"
        by auto
      show ?thesis
        apply (rule exI[of _ "c # popped"])
        using p Cons True unfolding eq by simp
    qed
  qed
qed

lemma chainEnd_mono: "\<forall>c\<in>set cs. cb_prevTx c \<le> cb_tx c \<Longrightarrow> contiguous lc cs \<Longrightarrow> lc \<le> chainEnd lc cs"
proof (induction cs arbitrary: lc)
  case Nil then show ?case by simp
next
  case (Cons c cs)
  then have "cb_tx c \<le> chainEnd (cb_tx c) cs" by simp
  moreover have "lc \<le> cb_tx c" using Cons.prems by auto
  ultimately show ?case by simp
qed

lemma loop_frame: "blocks (writeBlock_loop t) = blocks t \<and> active (writeBlock_loop t) = active t
  \<and> pendingBlocks (writeBlock_loop t) = pendingBlocks t \<and> wal (writeBlock_loop t) = wal t \<and> db (writeBlock_loop t) = db t"
  apply (induction t rule: writeBlock_loop.induct)
  subgoal for t
    apply (cases "completedBlocks t")
     apply (simp add: loop_nil)
    subgoal for c cs
      apply (cases "cb_prevTx c = lastCompleted t")
       apply (simp add: loop_go)
      apply (simp add: loop_stop)
      done
    done
  done

text \<open>
  Claim C2. When a rotated block has been persisted, its pair \<open>{prevTx, tx}\<close> is
  appended to \<open>completedBlocks\<close> and the list sorted by \<open>prevTx\<close> ascending. The
  watermark then advances through the longest prefix of the sorted list that is
  contiguous from it: the popped pairs start at \<open>lastCompleted\<close>, each starts where the
  one before ended, \<open>lastCompleted\<close> becomes the \<open>tx\<close> of the last one, and the head
  that stays (if any) does not start at the new watermark. Whatever the order in which
  blocks complete, the watermark never decreases, given that every pair has
  \<open>prevTx \<le> tx\<close> (a rotated block's \<open>minTx\<close> is a tx begun after its predecessor's).
\<close>

theorem writeBlock_completed_watermark:
  "let srt = sort_key cb_prevTx
               (completedBlocks t @ [\<lparr>cb_prevTx = prevTx block, cb_tx = minTx block\<rparr>]);
       t' = writeBlock_completed block t
   in sorted (map cb_prevTx srt)
    \<and> mset srt = mset (completedBlocks t) + {#\<lparr>cb_prevTx = prevTx block, cb_tx = minTx block\<rparr>#}
    \<and> (\<exists>popped. srt = popped @ completedBlocks t'
         \<and> contiguous (lastCompleted t) popped
         \<and> lastCompleted t' = chainEnd (lastCompleted t) popped
         \<and> (completedBlocks t' = [] \<or> cb_prevTx (hd (completedBlocks t')) \<noteq> lastCompleted t')
         \<and> ((\<forall>c\<in>set srt. cb_prevTx c \<le> cb_tx c) \<longrightarrow> lastCompleted t \<le> lastCompleted t'))"
proof -
  let ?new = "\<lparr>cb_prevTx = prevTx block, cb_tx = minTx block\<rparr>"
  let ?srt = "sort_key cb_prevTx (completedBlocks t @ [?new])"
  let ?t0 = "t\<lparr>completedBlocks := ?srt\<rparr>"
  have t': "writeBlock_completed block t = writeBlock_loop ?t0" by (simp add: writeBlock_completed_def)
  from loop_char[of ?t0] obtain popped where
    p: "?srt = popped @ completedBlocks (writeBlock_loop ?t0)"
       "contiguous (lastCompleted t) popped"
       "lastCompleted (writeBlock_loop ?t0) = chainEnd (lastCompleted t) popped"
       "completedBlocks (writeBlock_loop ?t0) = []
          \<or> cb_prevTx (hd (completedBlocks (writeBlock_loop ?t0))) \<noteq> lastCompleted (writeBlock_loop ?t0)"
    by auto
  have mono: "(\<forall>c\<in>set ?srt. cb_prevTx c \<le> cb_tx c) \<longrightarrow> lastCompleted t \<le> lastCompleted (writeBlock_loop ?t0)"
  proof
    assume a: "\<forall>c\<in>set ?srt. cb_prevTx c \<le> cb_tx c"
    have "set popped \<subseteq> set ?srt" by (subst p(1)) simp
    with a have "\<forall>c\<in>set popped. cb_prevTx c \<le> cb_tx c" by blast
    from chainEnd_mono[OF this p(2)] p(3) show "lastCompleted t \<le> lastCompleted (writeBlock_loop ?t0)" by simp
  qed
  have s: "sorted (map cb_prevTx ?srt)" by simp
  have m: "mset ?srt = mset (completedBlocks t) + {#?new#}" by simp
  show ?thesis
    unfolding Let_def t'
    apply (intro conjI s m)
    apply (rule exI[of _ popped])
    using p mono by blast
qed

theorem writeBlock_completed_watermark_witness:
  "lastCompleted (writeBlock_completed blockA watermarkTable) = 1
   \<and> completedBlocks (writeBlock_completed blockA watermarkTable) = [\<lparr>cb_prevTx = 2, cb_tx = 3\<rparr>]
   \<and> lastCompleted watermarkTable \<le> lastCompleted (writeBlock_completed blockA watermarkTable)"
proof -
  have s: "sort_key cb_prevTx
             (completedBlocks watermarkTable @ [\<lparr>cb_prevTx = prevTx blockA, cb_tx = minTx blockA\<rparr>])
           = [\<lparr>cb_prevTx = 0, cb_tx = 1\<rparr>, \<lparr>cb_prevTx = 2, cb_tx = 3\<rparr>]"
    by (simp add: watermarkTable_def blockA_def newTableBlock_def)
  have lc: "lastCompleted watermarkTable = 0"
    by (simp add: watermarkTable_def exampleTable_def)
  have r: "lastCompleted (writeBlock_completed blockA watermarkTable) = 1
     \<and> completedBlocks (writeBlock_completed blockA watermarkTable) = [\<lparr>cb_prevTx = 2, cb_tx = 3\<rparr>]"
    unfolding writeBlock_completed_def s
    by (simp add: loop_go loop_stop lc)
  from writeBlock_completed_watermark[of watermarkTable blockA] r show ?thesis
    by (simp add: Let_def s lc)
qed

section \<open>Rotation and the appender\<close>

lemma RotateBlock_noop: "active t \<noteq> block \<Longrightarrow> RotateBlock c block t = (None, t)"
  by (simp add: RotateBlock_def)

lemma release_restores:
  "ActiveWriteBlock t = (Inr b, t1) \<Longrightarrow> pendingWritersWg_Done b t1 = t"
  by (auto simp: ActiveWriteBlock_def pendingWritersWg_Done_def pendingWritersWg_Add_def
      split: if_splits option.splits)

lemma appender_unfold:
  "appender c t =
     (if closing t then Some (Inl ErrTableClosing, t)
      else case active t of
          None \<Rightarrow> Some (Inl (Panic ''nil pointer dereference''), t)
        | Some b \<Rightarrow>
            if sizeBytes (blocks t b) < activeMemorySize (db t)
            then Some (Inr b, pendingWritersWg_Add b 1 t)
            else (case RotateBlock c (Some b) t of
                    (Some e, t2) \<Rightarrow> Some (Inl (Errorf ''rotate block'' e), t2)
                  | (None, t2) \<Rightarrow> appender c t2))"
proof (cases "closing t")
  case True
  then show ?thesis by (subst appender.simps) (simp add: ActiveWriteBlock_def)
next
  case False
  show ?thesis
  proof (cases "active t")
    case None
    with False show ?thesis by (subst appender.simps) (simp add: ActiveWriteBlock_def)
  next
    case (Some b)
    have awb: "ActiveWriteBlock t = (Inr b, pendingWritersWg_Add b 1 t)"
      using False Some by (simp add: ActiveWriteBlock_def)
    have sz: "Size (blocks (pendingWritersWg_Add b 1 t) b) = sizeBytes (blocks t b)"
      by (simp add: Size_def pendingWritersWg_Add_def)
    have d: "db (pendingWritersWg_Add b 1 t) = db t"
      by (simp add: pendingWritersWg_Add_def)
    show ?thesis
      apply (subst appender.simps)
      apply (simp only: awb prod.case sum.case sz d release_restores[OF awb])
      using False Some by simp
  qed
qed

text \<open>The two outcomes of a rotation of the active block.\<close>

lemma RotateBlock_result:
  assumes "active t = Some b"
  shows "RotateBlock c (Some b) t =
     (case walLog (txClock (db t) + 1)
             (NewTableBlock (name t) (ulidSupply t (ulidCount t)) (config t)) (wal t) of
        (Some e, w) \<Rightarrow>
          (Some e, t\<lparr>db := commit (txClock (db t) + 1) ((db t)\<lparr>txClock := txClock (db t) + 1\<rparr>),
                     ulidCount := Suc (ulidCount t), wal := w\<rparr>)
      | (None, w) \<Rightarrow>
          (None, t\<lparr>db := commit (txClock (db t) + 1) ((db t)\<lparr>txClock := txClock (db t) + 1\<rparr>),
                   ulidCount := Suc (ulidCount t), wal := w,
                   blocks := (blocks t)(nextBlock t :=
                      newTableBlock (minTx (blocks t b)) (txClock (db t) + 1) (ulidSupply t (ulidCount t))),
                   active := Some (nextBlock t),
                   nextBlock := Suc (nextBlock t),
                   metrics := (metrics t)\<lparr>blockRotated := Suc (blockRotated (metrics t)), numParts := 0\<rparr>,
                   pendingBlocks := insertPending b (pendingBlocks t),
                   spawned := spawned t @ [b]\<rparr>))"
  using assms
  by (simp add: RotateBlock_def begin_tx_def generateULID_def Table_newTableBlock_def
      split: prod.splits option.splits)

lemma appender_induct [consumes 1, case_names closing nil below rotate_fail rotate_ok]:
  assumes run: "appender c t = Some y"
    and closing: "\<And>t. closing t \<Longrightarrow> P t (Inl ErrTableClosing, t)"
    and nil: "\<And>t. \<not> closing t \<Longrightarrow> active t = None \<Longrightarrow> P t (Inl (Panic ''nil pointer dereference''), t)"
    and below: "\<And>t b. \<not> closing t \<Longrightarrow> active t = Some b
        \<Longrightarrow> sizeBytes (blocks t b) < activeMemorySize (db t)
        \<Longrightarrow> P t (Inr b, pendingWritersWg_Add b 1 t)"
    and rotate_fail: "\<And>c t b e t2. \<not> closing t \<Longrightarrow> active t = Some b
        \<Longrightarrow> \<not> sizeBytes (blocks t b) < activeMemorySize (db t)
        \<Longrightarrow> RotateBlock c (Some b) t = (Some e, t2)
        \<Longrightarrow> P t (Inl (Errorf ''rotate block'' e), t2)"
    and rotate_ok: "\<And>c t b t2 y. \<not> closing t \<Longrightarrow> active t = Some b
        \<Longrightarrow> \<not> sizeBytes (blocks t b) < activeMemorySize (db t)
        \<Longrightarrow> RotateBlock c (Some b) t = (None, t2)
        \<Longrightarrow> P t2 y \<Longrightarrow> P t y"
  shows "P t y"
proof (rule appender.raw_induct[where P = "\<lambda>_ t y. P t y", OF _ run], goal_cases)
  case (1 f c t y)
  note IH = 1(1) and hyps = 1(2)
  show ?case
  proof (cases "closing t")
    case True
    with hyps have "y = (Inl ErrTableClosing, t)" by (simp add: ActiveWriteBlock_def)
    with True closing show ?thesis by simp
  next
    case nc: False
    show ?thesis
    proof (cases "active t")
      case None
      with nc hyps have "y = (Inl (Panic ''nil pointer dereference''), t)"
        by (simp add: ActiveWriteBlock_def)
      with nc None nil show ?thesis by simp
    next
      case (Some b)
      have awb: "ActiveWriteBlock t = (Inr b, pendingWritersWg_Add b 1 t)"
        using nc Some by (simp add: ActiveWriteBlock_def)
      have sz: "Size (blocks (pendingWritersWg_Add b 1 t) b) = sizeBytes (blocks t b)"
        by (simp add: Size_def pendingWritersWg_Add_def)
      have d: "db (pendingWritersWg_Add b 1 t) = db t"
        by (simp add: pendingWritersWg_Add_def)
      note body = hyps[unfolded awb prod.case sum.case sz d release_restores[OF awb]]
      show ?thesis
      proof (cases "sizeBytes (blocks t b) < activeMemorySize (db t)")
        case True
        with body have "y = (Inr b, pendingWritersWg_Add b 1 t)" by simp
        with nc Some True below show ?thesis by simp
      next
        case big: False
        obtain r t2 where rb: "RotateBlock c (Some b) t = (r, t2)" by (cases "RotateBlock c (Some b) t")
        show ?thesis
        proof (cases r)
          case None
          with body big rb have "f c t2 = Some y" by simp
          then have "P t2 y" by (rule IH)
          with nc Some big rb None show ?thesis by (auto intro: rotate_ok)
        next
          case (Some e)
          with body big rb have "y = (Inl (Errorf ''rotate block'' e), t2)" by simp
          with nc \<open>active t = Some b\<close> big rb Some rotate_fail show ?thesis by auto
        qed
      qed
    qed
  qed
qed

lemma walLog_cases:
  "(\<exists>w. walLog x e wl = (None, w)) \<or> (\<exists>w. walLog x e wl = (Some (ExternalError ''wal''), w))"
  by (auto simp: walLog_def split: list.splits)

lemma RotateBlock_frame:
  assumes "RotateBlock c (Some b) t = (r, t2)" and "active t = Some b"
  shows "nextBlock t \<le> nextBlock t2
     \<and> (\<forall>k<nextBlock t. blocks t2 k = blocks t k)
     \<and> (\<forall>k. nextBlock t \<le> k \<and> k < nextBlock t2 \<longrightarrow> index (blocks t2 k) = [])
     \<and> zeroRowsInserted (metrics t2) = zeroRowsInserted (metrics t)
     \<and> rowsInserted (metrics t2) = rowsInserted (metrics t)
     \<and> rowInsertSize (metrics t2) = rowInsertSize (metrics t)
     \<and> activeMemorySize (db t2) = activeMemorySize (db t)
     \<and> sources (db t2) = sources (db t)
     \<and> name t2 = name t \<and> closing t2 = closing t"
  using assms(1) unfolding RotateBlock_result[OF assms(2)]
  by (auto simp: commit_def newTableBlock_def split: prod.splits option.splits)

lemma appender_frame:
  assumes "appender c t = Some y"
  shows "nextBlock t \<le> nextBlock (snd y)
     \<and> (\<forall>k<nextBlock t. index (blocks (snd y) k) = index (blocks t k))
     \<and> (\<forall>k. nextBlock t \<le> k \<and> k < nextBlock (snd y) \<longrightarrow> index (blocks (snd y) k) = [])
     \<and> zeroRowsInserted (metrics (snd y)) = zeroRowsInserted (metrics t)
     \<and> rowsInserted (metrics (snd y)) = rowsInserted (metrics t)
     \<and> rowInsertSize (metrics (snd y)) = rowInsertSize (metrics t)
     \<and> activeMemorySize (db (snd y)) = activeMemorySize (db t)
     \<and> sources (db (snd y)) = sources (db t)
     \<and> name (snd y) = name t \<and> closing (snd y) = closing t"
  using assms
proof (induction rule: appender_induct)
  case (closing t)
  then show ?case by auto
next
  case (nil t)
  then show ?case by auto
next
  case (below t b)
  then show ?case by (auto simp: pendingWritersWg_Add_def)
next
  case (rotate_fail c t b e t2)
  from RotateBlock_frame[OF rotate_fail(4) rotate_fail(2)] show ?case by simp
next
  case (rotate_ok c t b t2 y)
  from RotateBlock_frame[OF rotate_ok(4) rotate_ok(2)] rotate_ok(5)
  show ?case
    apply (intro conjI)
             apply simp
            apply (metis (no_types, lifting) less_le_trans)
           apply (metis (no_types, lifting) not_le_imp_less)
          apply simp_all
    done
qed

lemma set_insertPending: "set (insertPending b bs) = insert b (set bs)"
  by (auto simp: insertPending_def)

lemma set_memoryRecords:
  "set (memoryRecords t) = (\<Union>k\<in>set (memoryBlockIds t). set (index (blocks t k)))"
  by (simp add: memoryRecords_def)

lemma RotateBlock_ok_fields:
  assumes "RotateBlock c (Some b) t = (None, t2)" and "active t = Some b"
  shows "active t2 = Some (nextBlock t)" "nextBlock t2 = Suc (nextBlock t)"
    "pendingBlocks t2 = insertPending b (pendingBlocks t)"
    "blocks t2 = (blocks t)(nextBlock t :=
        newTableBlock (minTx (blocks t b)) (txClock (db t) + 1) (ulidSupply t (ulidCount t)))"
    "spawned t2 = spawned t @ [b]"
    "blockRotated (metrics t2) = Suc (blockRotated (metrics t))"
    "completedBlocks t2 = completedBlocks t" "lastCompleted t2 = lastCompleted t"
  using assms(1) unfolding RotateBlock_result[OF assms(2)]
  by (auto split: prod.splits option.splits)

lemma RotateBlock_fail_fields:
  assumes "RotateBlock c (Some b) t = (Some e, t2)" and "active t = Some b"
  shows "active t2 = active t" "nextBlock t2 = nextBlock t"
    "pendingBlocks t2 = pendingBlocks t" "blocks t2 = blocks t" "spawned t2 = spawned t"
    "metrics t2 = metrics t" "e = ExternalError ''wal''"
    "completedBlocks t2 = completedBlocks t" "lastCompleted t2 = lastCompleted t"
  using assms(1) unfolding RotateBlock_result[OF assms(2)]
  using walLog_cases[of "txClock (db t) + 1" "NewTableBlock (name t) (ulidSupply t (ulidCount t)) (config t)" "wal t"]
  by (auto split: prod.splits option.splits)

lemma RotateBlock_allocated:
  assumes "RotateBlock c (Some b) t = (r, t2)" and "active t = Some b" and "allocated t"
  shows "allocated t2 \<and> set (memoryRecords t2) = set (memoryRecords t)"
proof -
  have b: "b < nextBlock t" and p: "\<forall>k\<in>set (pendingBlocks t). k < nextBlock t"
    using assms(2,3) by (auto simp: allocated_def list_all_iff)
  show ?thesis
  proof (cases r)
    case None
    note f = RotateBlock_ok_fields[OF assms(1)[unfolded None] assms(2)]
    have old: "\<And>k. k < nextBlock t \<Longrightarrow> index (blocks t2 k) = index (blocks t k)"
      by (simp add: f(4))
    have new: "index (blocks t2 (nextBlock t)) = []"
      by (simp add: f(4) newTableBlock_def)
    have ids: "set (memoryBlockIds t2) = insert (nextBlock t) (set (memoryBlockIds t))"
      using assms(2) by (auto simp: memoryBlockIds_def f(1,3) set_insertPending)
    have lt: "\<forall>k\<in>set (memoryBlockIds t). k < nextBlock t"
      using b p assms(2) by (auto simp: memoryBlockIds_def)
    have "set (memoryRecords t2) = (\<Union>k\<in>set (memoryBlockIds t). set (index (blocks t2 k)))"
      unfolding set_memoryRecords ids using new by simp
    also have "\<dots> = (\<Union>k\<in>set (memoryBlockIds t). set (index (blocks t k)))"
      using lt old by simp
    finally have rec: "set (memoryRecords t2) = set (memoryRecords t)"
      by (simp add: set_memoryRecords)
    have "allocated t2"
      using b p by (auto simp: allocated_def list_all_iff f(1,2,3) set_insertPending less_Suc_eq)
    with rec show ?thesis by simp
  next
    case (Some e)
    note f = RotateBlock_fail_fields[OF assms(1)[unfolded Some] assms(2)]
    show ?thesis using assms(3)
      by (simp add: allocated_def set_memoryRecords memoryBlockIds_def f assms(2))
  qed
qed

lemma appender_allocated:
  assumes "appender c t = Some y"
  shows "allocated t \<longrightarrow> allocated (snd y) \<and> set (memoryRecords (snd y)) = set (memoryRecords t)"
  using assms
proof (induction rule: appender_induct)
  case (below t b)
  then show ?case
    by (auto simp: pendingWritersWg_Add_def allocated_def set_memoryRecords memoryBlockIds_def
        split: if_splits)
next
  case (rotate_fail c t b e t2)
  from RotateBlock_allocated[OF rotate_fail(4) rotate_fail(2)] show ?case by simp
next
  case (rotate_ok c t b t2 y)
  from RotateBlock_allocated[OF rotate_ok(4) rotate_ok(2)] rotate_ok(5) show ?case by simp
qed simp_all

lemma appender_Inr:
  assumes "appender c t = Some y"
  shows "\<forall>b. fst y = Inr b \<longrightarrow>
           (\<exists>t0. \<not> closing t0 \<and> active t0 = Some b \<and> snd y = pendingWritersWg_Add b 1 t0
                 \<and> sizeBytes (blocks t0 b) < activeMemorySize (db t0))"
  using assms
proof (induction rule: appender_induct)
  case (below t b)
  then show ?case by auto
qed simp_all

section \<open>Scans of the memory blocks\<close>

lemma memoryBlocks_loop_frame:
  "memoryBlocks_loop bs ((mbs, ts), t) = ((mbs', ts'), t') \<Longrightarrow>
     mbs' = mbs @ bs \<and> (\<forall>k. index (blocks t' k) = index (blocks t k)) \<and> db t' = db t"
proof (induction bs arbitrary: mbs ts t)
  case Nil
  then show ?case by simp
next
  case (Cons a bs)
  from Cons.prems Cons.IH[of "mbs @ [a]" _ "pendingReadersWg_Add a 1 t"]
  show ?case by (simp add: pendingReadersWg_Add_def)
qed

lemma memoryBlocks_ids:
  assumes "memoryBlocks t = ((mbs, ts), t')"
  shows "mbs = memoryBlockIds t \<and> (\<forall>k. index (blocks t' k) = index (blocks t k)) \<and> db t' = db t"
proof (cases "active t")
  case None
  with assms show ?thesis by (simp add: memoryBlocks_def memoryBlockIds_def)
next
  case (Some a)
  with assms have "memoryBlocks_loop (pendingBlocks t)
            (([a], ulidTime (ulid (blocks t a))), pendingReadersWg_Add a 1 t) = ((mbs, ts), t')"
    by (simp add: memoryBlocks_def)
  from memoryBlocks_loop_frame[OF this] Some show ?thesis
    by (simp add: memoryBlockIds_def pendingReadersWg_Add_def)
qed

lemma collectRowGroups_loop_LSM:
  "collectRowGroups_loop (map (\<lambda>block. LSM_Scan (f block)) bs) ts
     = (map (\<lambda>(x, r). RecordItem r) (concat (map f bs)), None)"
  by (induction bs) (simp_all add: LSM_Scan_def)

lemma collectRowGroups_memory:
  assumes "sources (db t) = []"
  shows "fst (collectRowGroups c x t) = (map (\<lambda>(x, r). RecordItem r) (memoryRecords t), None)"
proof -
  obtain mbs ts t1 where m: "memoryBlocks t = ((mbs, ts), t1)"
    by (metis prod.exhaust)
  from memoryBlocks_ids[OF m] have ids: "mbs = memoryBlockIds t"
    and idx: "\<And>k. index (blocks t1 k) = index (blocks t k)" by auto
  have d: "sources (db t1) = []" using memoryBlocks_ids[OF m] assms by simp
  show ?thesis
    by (simp add: collectRowGroups_def m d collectRowGroups_loop_LSM idx memoryRecords_def ids)
qed

section \<open>Insertion\<close>

lemma appender_Inl:
  assumes "appender c t = Some y"
  shows "\<forall>e. fst y = Inl e \<longrightarrow>
           (e = ErrTableClosing \<and> closing (snd y))
           \<or> (e = Panic ''nil pointer dereference'' \<and> \<not> closing (snd y) \<and> active (snd y) = None)
           \<or> (e = Errorf ''rotate block'' (ExternalError ''wal'')
                \<and> \<not> closing (snd y) \<and> active (snd y) \<noteq> None)"
  using assms
proof (induction rule: appender_induct)
  case (rotate_fail c t b e t2)
  from RotateBlock_fail_fields(1,7)[OF rotate_fail(4) rotate_fail(2)]
    RotateBlock_frame[OF rotate_fail(4) rotate_fail(2)] rotate_fail(1,2)
  show ?case by simp
qed simp_all

lemma InsertRecord_Inl:
  "appender c t = Some (Inl e, t1) \<Longrightarrow> \<forall>m. e \<noteq> Panic m \<Longrightarrow>
     InsertRecord c r t = Some (Returns (0, Some (Errorf ''get appender'' e)), t1)"
  by (cases e) (simp_all add: InsertRecord_def)

lemma InsertRecord_Panic:
  "appender c t = Some (Inl (Panic m), t1) \<Longrightarrow> InsertRecord c r t = Some (Panics m, t1)"
  by (simp add: InsertRecord_def)

lemma InsertRecord_wal_fail:
  assumes "appender c t = Some (Inr b, t1)"
    and "walLogRecord (txClock (db t1) + 1) (name t1) r (wal t1) = (Some e, w)"
  shows "InsertRecord c r t =
     Some (Returns (txClock (db t1) + 1, Some (Errorf ''append to log'' e)),
           InsertRecord_return (txClock (db t1) + 1) b
             (t1\<lparr>db := (db t1)\<lparr>txClock := txClock (db t1) + 1\<rparr>, wal := w\<rparr>))"
  using assms by (simp add: InsertRecord_def begin_tx_def)

lemma InsertRecord_wal_ok:
  assumes "appender c t = Some (Inr b, t1)"
    and "walLogRecord (txClock (db t1) + 1) (name t1) r (wal t1) = (None, w)"
  shows "InsertRecord c r t =
     Some (Returns (txClock (db t1) + 1, None),
           InsertRecord_return (txClock (db t1) + 1) b
             (snd (TableBlock_InsertRecord c (txClock (db t1) + 1) r b
                (t1\<lparr>db := (db t1)\<lparr>txClock := txClock (db t1) + 1\<rparr>, wal := w\<rparr>))))"
  using assms by (simp add: InsertRecord_def begin_tx_def TableBlock_InsertRecord_def)

lemma InsertRecord_return_fields:
  "index (blocks (InsertRecord_return x b t) k) = index (blocks t k)"
  "nextBlock (InsertRecord_return x b t) = nextBlock t"
  "active (InsertRecord_return x b t) = active t"
  "pendingBlocks (InsertRecord_return x b t) = pendingBlocks t"
  "metrics (InsertRecord_return x b t) = metrics t"
  "wal (InsertRecord_return x b t) = wal t"
  "txClock (db (InsertRecord_return x b t)) = txClock (db t)"
  by (simp_all add: InsertRecord_return_def pendingWritersWg_Done_def pendingWritersWg_Add_def commit_def)

lemma memoryRecords_cong:
  "active t' = active t \<Longrightarrow> pendingBlocks t' = pendingBlocks t
    \<Longrightarrow> (\<And>k. index (blocks t' k) = index (blocks t k))
    \<Longrightarrow> memoryRecords t' = memoryRecords t"
  by (cases "active t") (simp_all add: memoryRecords_def memoryBlockIds_def)

lemma exampleTable_appender:
  "appender c (exampleTable 100 fs) = Some (Inr 0, pendingWritersWg_Add 0 1 (exampleTable 100 fs))"
  by (subst appender_unfold) (simp add: exampleTable_def newTableBlock_def)


lemma appender_total:
  assumes "0 < activeMemorySize (db t)"
  shows "\<exists>y. appender c t = Some y"
proof (cases "closing t \<or> active t = None")
  case True
  then show ?thesis by (subst appender_unfold) (auto split: option.splits)
next
  case False
  then obtain b where nc: "\<not> closing t" and act: "active t = Some b" by auto
  show ?thesis
  proof (cases "sizeBytes (blocks t b) < activeMemorySize (db t)")
    case True
    with nc act show ?thesis by (subst appender_unfold) simp
  next
    case big: False
    obtain r t2 where rb: "RotateBlock c (Some b) t = (r, t2)" by (cases "RotateBlock c (Some b) t")
    show ?thesis
    proof (cases r)
      case (Some e)
      with nc act big rb show ?thesis by (subst appender_unfold) simp
    next
      case None
      note f = RotateBlock_ok_fields[OF rb[unfolded None] act]
      note fr = RotateBlock_frame[OF rb act]
      have nc2: "\<not> closing t2" using fr nc by simp
      have sz: "sizeBytes (blocks t2 (nextBlock t)) < activeMemorySize (db t2)"
        using fr assms by (simp add: f(4) newTableBlock_def)
      have "appender c t2 = Some (Inr (nextBlock t), pendingWritersWg_Add (nextBlock t) 1 t2)"
        using nc2 sz by (subst appender_unfold) (simp add: f(1))
      with nc act big rb None show ?thesis by (subst appender_unfold) simp
    qed
  qed
qed

lemma fullTable_appender:
  "\<exists>t'. appender c fullTable = Some (Inr 1, t') \<and> sizeBytes (blocks t' 1) = 0 \<and> sizeBytes (blocks t' 0) = 100
       \<and> pendingWritersWg (blocks t' 0) = 0 \<and> pendingWritersWg (blocks t' 1) = 1 \<and> pendingBlocks t' = [0]
       \<and> activeMemorySize (db t') = 100"
  apply (subst appender_unfold)
  apply (simp add: fullTable_def exampleTable_def newTableBlock_def RotateBlock_def begin_tx_def
      generateULID_def Table_newTableBlock_def walLog_def commit_def insertPending_def)
  apply (subst appender_unfold)
  apply (simp add: pendingWritersWg_Add_def)
  done

text \<open>No function on the insertion path reads its context.\<close>

lemma RotateBlock_ctx: "RotateBlock c block t = RotateBlock c' block t"
  by (simp add: RotateBlock_def)

lemma appender_ctx_Some:
  assumes "appender c t = Some y"
  shows "appender c' t = Some y"
  using assms
proof (induction rule: appender_induct)
  case (closing t)
  then show ?case by (subst appender_unfold) simp
next
  case (nil t)
  then show ?case by (subst appender_unfold) simp
next
  case (below t b)
  then show ?case by (subst appender_unfold) simp
next
  case (rotate_fail c t b e t2)
  then show ?case by (subst appender_unfold) (simp add: RotateBlock_ctx[of c' _ _ c])
next
  case (rotate_ok c t b t2 y)
  then show ?case by (subst appender_unfold) (simp add: RotateBlock_ctx[of c' _ _ c])
qed

lemma appender_ctx: "appender c t = appender c' t"
proof (cases "appender c t")
  case (Some y)
  then show ?thesis by (simp add: appender_ctx_Some[OF Some])
next
  case None
  show ?thesis
  proof (cases "appender c' t")
    case None
    with \<open>appender c t = None\<close> show ?thesis by simp
  next
    case (Some y)
    from appender_ctx_Some[OF Some, of c] \<open>appender c t = None\<close> show ?thesis by simp
  qed
qed

lemma TableBlock_InsertRecord_ctx:
  "TableBlock_InsertRecord c x r b t = TableBlock_InsertRecord c' x r b t"
  by (simp add: TableBlock_InsertRecord_def)

lemma walLogRecord_ok_entries:
  "walLogRecord x n r wl = (None, w) \<Longrightarrow> \<not> nop wl \<Longrightarrow> entries w = entries wl @ [(x, RecordBatch n r)]"
  by (auto simp: walLogRecord_def walLog_def split: if_splits list.splits)

text \<open>
  No return of \<open>InsertRecord\<close> carries a cancellation error: the errors on its path
  are \<open>ErrTableClosing\<close> and what the WAL hands back.
\<close>

lemma walLogRecord_error:
  "walLogRecord x n r wl = (Some e, w) \<Longrightarrow> e = ExternalError ''wal''"
  using walLog_cases[of x "RecordBatch n r" wl] by (auto simp: walLogRecord_def)

lemma InsertRecord_no_cancellation:
  assumes "InsertRecord c r t = Some (Returns (x, Some e), t')"
  shows "\<not> isCanceled e"
proof -
  from assms obtain y where y: "appender c t = Some y"
    by (auto simp: InsertRecord_def split: option.splits)
  obtain s ta where yt: "y = (s, ta)" by (cases y)
  show ?thesis
  proof (cases s)
    case (Inl e0)
    from appender_Inl[OF y] yt Inl have k:
      "e0 = ErrTableClosing \<or> e0 = Panic ''nil pointer dereference''
       \<or> e0 = Errorf ''rotate block'' (ExternalError ''wal'')" by auto
    from assms y yt Inl k show ?thesis by (auto simp: InsertRecord_def)
  next
    case (Inr b)
    with y yt have a: "appender c t = Some (Inr b, ta)" by simp
    obtain eo w where w: "walLogRecord (txClock (db ta) + 1) (name ta) r (wal ta) = (eo, w)"
      by (cases "walLogRecord (txClock (db ta) + 1) (name ta) r (wal ta)")
    show ?thesis
    proof (cases eo)
      case None
      from assms show ?thesis unfolding InsertRecord_wal_ok[OF a w[unfolded None]] by simp
    next
      case (Some e')
      from walLogRecord_error[OF w[unfolded Some]] assms show ?thesis
        unfolding InsertRecord_wal_fail[OF a w[unfolded Some]] by auto
    qed
  qed
qed

text \<open>On a table that is not closing, a block below the threshold gives its slot at once.\<close>

lemma appender_slot:
  assumes "\<not> closing t" and "active t = Some b"
    and "Size (blocks t b) < activeMemorySize (db t)"
  shows "appender c t = Some (Inr b, pendingWritersWg_Add b 1 t)"
  using assms by (subst appender_unfold) (simp add: Size_def)

section \<open>The row writer\<close>

lemma writesWithin_refl: "writesWithin p p"
  by (simp add: writesWithin_def)

lemma writesWithin_trans:
  assumes "writesWithin p p'" and "writesWithin p' p''"
  shows "writesWithin p p''"
proof -
  have a: "maxNumRows p'' = maxNumRows p" "rowGroupSize p'' = rowGroupSize p"
    "totalRowsWritten p \<le> totalRowsWritten p''"
    using assms by (simp_all add: writesWithin_def)
  have b: "maxNumRows p \<noteq> 0 \<longrightarrow>
            totalRowsWritten p'' = totalRowsWritten p \<or> totalRowsWritten p'' \<le> maxNumRows p"
    using assms unfolding writesWithin_def by auto
  have c: "0 < rowGroupSize p \<and> rowGroupInv p \<longrightarrow>
            rowGroupInv p''
            \<and> (\<exists>gs. rowGroups (writer p'') = rowGroups (writer p) @ gs
                  \<and> list_all (\<lambda>g. int (length g) = rowGroupSize p) gs)"
  proof
    assume h: "0 < rowGroupSize p \<and> rowGroupInv p"
    with assms(1) obtain gs where 1: "rowGroupInv p'" "rowGroups (writer p') = rowGroups (writer p) @ gs"
      "list_all (\<lambda>g. int (length g) = rowGroupSize p) gs" "rowGroupSize p' = rowGroupSize p"
      unfolding writesWithin_def by auto
    with h assms(2) obtain gs' where 2: "rowGroupInv p''" "rowGroups (writer p'') = rowGroups (writer p') @ gs'"
      "list_all (\<lambda>g. int (length g) = rowGroupSize p) gs'"
      unfolding writesWithin_def by auto
    from 1 2 have "rowGroups (writer p'') = rowGroups (writer p) @ (gs @ gs')
        \<and> list_all (\<lambda>g. int (length g) = rowGroupSize p) (gs @ gs')" by simp
    with 2(1) show "rowGroupInv p''
            \<and> (\<exists>gs. rowGroups (writer p'') = rowGroups (writer p) @ gs
                  \<and> list_all (\<lambda>g. int (length g) = rowGroupSize p) gs)" by blast
  qed
  from a b c show ?thesis unfolding writesWithin_def by blast
qed

lemma ReadRows_bound:
  "ReadRows k rows = ((n, rs, err), rows') \<Longrightarrow> n \<le> k \<and> length rs = n"
  by (induction k rows rule: ReadRows.induct) (auto split: if_splits)

lemma pw_WriteRows_ok:
  "pw_WriteRows rs pw = (None, pw') \<Longrightarrow>
     rowGroups pw' = rowGroups pw \<and> buffered pw' = buffered pw @ rs"
  by (auto simp: pw_WriteRows_def split: list.splits if_splits)

lemma pw_WriteRows_fail:
  "pw_WriteRows rs pw = (Some e, pw') \<Longrightarrow>
     rowGroups pw' = rowGroups pw \<and> buffered pw' = buffered pw"
  by (auto simp: pw_WriteRows_def split: list.splits if_splits)

lemma pw_Flush_ok:
  "pw_Flush pw = (None, pw') \<Longrightarrow>
     rowGroups pw' = rowGroups pw @ [buffered pw] \<and> buffered pw' = []"
  by (auto simp: pw_Flush_def split: list.splits if_splits)

lemma pw_Flush_fail:
  "pw_Flush pw = (Some e, pw') \<Longrightarrow>
     rowGroups pw' = rowGroups pw \<and> buffered pw' = buffered pw"
  by (auto simp: pw_Flush_def split: list.splits if_splits)

lemma cutRowsBuf_Inr:
  assumes "cutRowsBuf p = Inr p2"
  shows "p2 = p\<lparr>rowsBuf := rowsBuf p2\<rparr>"
    and "0 < rowGroupSize p \<Longrightarrow> rowGroupRowsWritten p + int (rowsBuf p2) \<le> rowGroupSize p"
    and "maxNumRows p \<noteq> 0 \<Longrightarrow> totalRowsWritten p + int (rowsBuf p2) \<le> maxNumRows p"
    and "rowsBuf p2 \<le> rowsBuf p"
  using assms
  by (auto simp: cutRowsBuf_def Let_def split: if_splits)

lemma rowGroupInv_rowsBuf: "rowGroupInv (p\<lparr>rowsBuf := k\<rparr>) = rowGroupInv p"
  by (simp add: rowGroupInv_def)

lemma writesWithin_rowsBuf: "writesWithin p (p\<lparr>rowsBuf := k\<rparr>)"
  by (simp add: writesWithin_def rowGroupInv_def)

lemma writeRows_written_within:
  assumes len: "length rs = n" and pos: "0 < n"
    and gb: "0 < rowGroupSize p \<Longrightarrow> rowGroupRowsWritten p + int n \<le> rowGroupSize p"
    and mb: "maxNumRows p \<noteq> 0 \<Longrightarrow> totalRowsWritten p + int n \<le> maxNumRows p"
  shows "case writeRows_written p n rs rows' w of
           Return res p' r \<Rightarrow> writesWithin p p' \<and> snd res \<noteq> None
         | Continue p' r w' \<Rightarrow>
             writesWithin p p' \<and> w' = w + int n
             \<and> totalRowsWritten p' = totalRowsWritten p + int n
             \<and> (0 < rowGroupSize p \<longrightarrow> rowGroupRowsWritten p' < rowGroupSize p)"
proof -
  obtain eo pw where wr: "pw_WriteRows rs (writer p) = (eo, pw)" by (cases "pw_WriteRows rs (writer p)")
  show ?thesis
  proof (cases eo)
    case (Some e)
    from pw_WriteRows_fail[OF wr[unfolded Some]]
    have "writesWithin p (p\<lparr>writer := pw\<rparr>)"
      by (simp add: writesWithin_def rowGroupInv_def)
    then show ?thesis by (simp add: writeRows_written_def wr Some)
  next
    case None
    note w1 = pw_WriteRows_ok[OF wr[unfolded None]]
    let ?p3 = "p\<lparr>writer := pw, rowGroupRowsWritten := rowGroupRowsWritten p + int n,
                  totalRowsWritten := totalRowsWritten p + int n\<rparr>"
    have w3: "writesWithin p ?p3"
      using w1 len gb mb by (auto simp: writesWithin_def rowGroupInv_def)
    show ?thesis
    proof (cases "rowGroupSize p > 0 \<and> rowGroupRowsWritten p + int n \<ge> rowGroupSize p")
      case False
      then have "writeRows_written p n rs rows' w = Continue ?p3 rows' (w + int n)"
        by (auto simp: writeRows_written_def wr None Let_def)
      with w3 False show ?thesis by auto
    next
      case True
      then have eq: "rowGroupRowsWritten p + int n = rowGroupSize p" using gb by simp
      obtain fo pw' where fl: "pw_Flush pw = (fo, pw')" by (cases "pw_Flush pw")
      show ?thesis
      proof (cases fo)
        case (Some e)
        from pw_Flush_fail[OF fl[unfolded Some]] w1
        have "writesWithin p (?p3\<lparr>writer := pw'\<rparr>)"
          using len gb mb True by (auto simp: writesWithin_def rowGroupInv_def)
        moreover have "writeRows_written p n rs rows' w = Return (0, Some e) (?p3\<lparr>writer := pw'\<rparr>) rows'"
          using True by (simp add: writeRows_written_def wr None Let_def fl Some)
        ultimately show ?thesis by simp
      next
        case None2: None
        note f1 = pw_Flush_ok[OF fl[unfolded None2]]
        let ?p4 = "?p3\<lparr>writer := pw', rowGroupRowsWritten := 0\<rparr>"
        have r: "writeRows_written p n rs rows' w = Continue ?p4 rows' (w + int n)"
          using True by (simp add: writeRows_written_def wr None Let_def fl None2)
        have inv: "rowGroupInv p \<longrightarrow> rowGroupInv ?p4
            \<and> (\<exists>gs. rowGroups (writer ?p4) = rowGroups (writer p) @ gs
                  \<and> list_all (\<lambda>g. int (length g) = rowGroupSize p) gs)"
        proof
          assume i: "rowGroupInv p"
          have l: "int (length (buffered pw)) = rowGroupSize p"
            using i w1 len eq by (simp add: rowGroupInv_def)
          have "rowGroupInv ?p4" using i f1 w1 l True by (simp add: rowGroupInv_def)
          moreover have "rowGroups (writer ?p4) = rowGroups (writer p) @ [buffered pw]
              \<and> list_all (\<lambda>g. int (length g) = rowGroupSize p) [buffered pw]"
            using f1 w1 l by simp
          ultimately show "rowGroupInv ?p4
            \<and> (\<exists>gs. rowGroups (writer ?p4) = rowGroups (writer p) @ gs
                  \<and> list_all (\<lambda>g. int (length g) = rowGroupSize p) gs)" by blast
        qed
        have w4: "writesWithin p ?p4"
          unfolding writesWithin_def using inv mb by auto
        from r w4 True show ?thesis by simp
      qed
    qed
  qed
qed

lemma writeRows_body_within:
  "case writeRows_body p rows w of
     Return res p' r \<Rightarrow>
       writesWithin p p'
       \<and> (snd res = None \<longrightarrow> fst res = w \<and> totalRowsWritten p' = totalRowsWritten p
              \<and> rowGroupRowsWritten p' = rowGroupRowsWritten p)
   | Continue p' r w' \<Rightarrow>
       writesWithin p p'
       \<and> w' - w = totalRowsWritten p' - totalRowsWritten p
       \<and> (0 < rowGroupSize p \<longrightarrow> rowGroupRowsWritten p' < rowGroupSize p)"
proof (cases "cutRowsBuf p")
  case (Inl e)
  then show ?thesis by (simp add: writeRows_body_def writesWithin_refl)
next
  case (Inr p2)
  note c = cutRowsBuf_Inr[OF Inr]
  have p2: "writesWithin p p2" by (subst c(1)) (rule writesWithin_rowsBuf)
  have f: "rowGroupSize p2 = rowGroupSize p" "maxNumRows p2 = maxNumRows p"
    "rowGroupRowsWritten p2 = rowGroupRowsWritten p" "totalRowsWritten p2 = totalRowsWritten p"
    by (subst c(1), simp)+
  obtain n rs err rows' where rd: "ReadRows (rowsBuf p2) rows = ((n, rs, err), rows')"
    by (metis prod.exhaust)
  note rb = ReadRows_bound[OF rd]
  show ?thesis
  proof (cases "err \<noteq> None \<and> err \<noteq> Some EOF")
    case True
    then show ?thesis using p2 by (auto simp: writeRows_body_def Inr rd)
  next
    case noerr: False
    show ?thesis
    proof (cases "n = 0")
      case True
      then show ?thesis using p2 noerr f by (auto simp: writeRows_body_def Inr rd)
    next
      case False
      have b: "writeRows_body p rows w = writeRows_written p2 n rs rows' w"
        using noerr False by (auto simp: writeRows_body_def Inr rd)
      have gb: "0 < rowGroupSize p2 \<Longrightarrow> rowGroupRowsWritten p2 + int n \<le> rowGroupSize p2"
        using c(2) rb f by simp
      have mb: "maxNumRows p2 \<noteq> 0 \<Longrightarrow> totalRowsWritten p2 + int n \<le> maxNumRows p2"
        using c(3) rb f by simp
      from writeRows_written_within[where rs = rs and n = n and p = p2 and rows' = rows' and w = w,
          OF _ _ gb mb] rb False
      have "case writeRows_written p2 n rs rows' w of
           Return res p' r \<Rightarrow> writesWithin p2 p' \<and> snd res \<noteq> None
         | Continue p' r w' \<Rightarrow>
             writesWithin p2 p' \<and> w' = w + int n
             \<and> totalRowsWritten p' = totalRowsWritten p2 + int n
             \<and> (0 < rowGroupSize p2 \<longrightarrow> rowGroupRowsWritten p' < rowGroupSize p2)" by simp
      then show ?thesis unfolding b f
        by (cases "writeRows_written p2 n rs rows' w")
           (auto intro: writesWithin_trans[OF p2])
    qed
  qed
qed

declare writeRows_loop.simps [simp del]

lemma writeRows_loop_within:
  "writeRows_loop p rows w = (res, p', rows') \<Longrightarrow>
     writesWithin p p'
     \<and> (snd res = None \<longrightarrow> fst res - w = totalRowsWritten p' - totalRowsWritten p)
     \<and> (snd res = None \<and> 0 < rowGroupSize p \<and> rowGroupRowsWritten p < rowGroupSize p
          \<longrightarrow> rowGroupRowsWritten p' < rowGroupSize p)"
proof (induction p rows w arbitrary: res p' rows' rule: writeRows_loop.induct)
  case (1 p rows w)
  show ?case
  proof (cases "maxNumRows p = 0 \<or> totalRowsWritten p < maxNumRows p")
    case False
    with "1.prems" have "res = (w, None)" "p' = p" by (simp_all add: writeRows_loop.simps)
    then show ?thesis by (simp add: writesWithin_refl)
  next
    case True
    show ?thesis
    proof (cases "writeRows_body p rows w")
      case (Return r q rs)
      with "1.prems" True have e: "res = r" "p' = q" by (simp_all add: writeRows_loop.simps)
      from writeRows_body_within[where p = p and rows = rows and w = w] Return
      have "writesWithin p q"
        "snd r = None \<longrightarrow> fst r = w \<and> totalRowsWritten q = totalRowsWritten p
              \<and> rowGroupRowsWritten q = rowGroupRowsWritten p" by simp_all
      then show ?thesis using e by simp
    next
      case (Continue q rs w')
      with "1.prems" True have l: "writeRows_loop q rs w' = (res, p', rows')"
        by (simp add: writeRows_loop.simps)
      from "1.IH"[OF True Continue l]
      have ih: "writesWithin q p'"
        "snd res = None \<longrightarrow> fst res - w' = totalRowsWritten p' - totalRowsWritten q"
        "snd res = None \<and> 0 < rowGroupSize q \<and> rowGroupRowsWritten q < rowGroupSize q
          \<longrightarrow> rowGroupRowsWritten p' < rowGroupSize q" by simp_all
      from writeRows_body_within[where p = p and rows = rows and w = w] Continue
      have st: "writesWithin p q" "w' - w = totalRowsWritten q - totalRowsWritten p"
        "0 < rowGroupSize p \<longrightarrow> rowGroupRowsWritten q < rowGroupSize p" by simp_all
      have rs: "rowGroupSize q = rowGroupSize p" using st(1) by (simp add: writesWithin_def)
      have "writesWithin p p'" by (rule writesWithin_trans[OF st(1) ih(1)])
      moreover have "snd res = None \<longrightarrow> fst res - w = totalRowsWritten p' - totalRowsWritten p"
        using ih(2) st(2) by auto
      moreover have "snd res = None \<and> 0 < rowGroupSize p \<and> rowGroupRowsWritten p < rowGroupSize p
          \<longrightarrow> rowGroupRowsWritten p' < rowGroupSize p"
        using ih(3) st(3) rs by auto
      ultimately show ?thesis by simp
    qed
  qed
qed

lemma fold_withMaxRows:
  "\<exists>m. fold (\<lambda>option p. option p) (map withMaxRows ms) p = p\<lparr>maxNumRows := m\<rparr>"
proof (induction ms arbitrary: p)
  case Nil
  have "p = p\<lparr>maxNumRows := maxNumRows p\<rparr>" by simp
  then show ?case by (simp, blast)
next
  case (Cons a ms)
  from Cons[of "p\<lparr>maxNumRows := a\<rparr>"] show ?case by (simp add: withMaxRows_def)
qed

lemma rowWriter_fresh:
  assumes "rowWriter t (Inr pw) (map withMaxRows ms) = Inr q"
    and "rowGroups pw = []" and "buffered pw = []"
  shows "totalRowsWritten q = 0 \<and> rowGroupRowsWritten q = 0
     \<and> rowGroupSize q = sint (RowGroupSize (config t))
     \<and> (0 < rowGroupSize q \<longrightarrow> rowGroupInv q \<and> int (rowsBuf q) = rowGroupSize q)"
proof -
  let ?b = "if RowGroupSize (config t) > 0 then sint (RowGroupSize (config t)) else 256"
  let ?p0 = "\<lparr>writer = pw, rowGroupSize = sint (RowGroupSize (config t)), maxNumRows = 0,
                      rowGroupRowsWritten = 0, totalRowsWritten = 0, rowsBuf = nat ?b\<rparr>"
  from assms(1) have q: "q = fold (\<lambda>option p. option p) (map withMaxRows ms) ?p0"
    by (auto simp: rowWriter_def Let_def split: if_splits)
  from fold_withMaxRows[of ms ?p0] obtain m where "q = ?p0\<lparr>maxNumRows := m\<rparr>"
    unfolding q by blast
  moreover have "0 < sint (RowGroupSize (config t)) \<Longrightarrow> RowGroupSize (config t) > 0"
    by (cases "RowGroupSize (config t) = 0") (auto simp: word_greater_zero_iff)
  ultimately show ?thesis
    using assms(2,3) by (auto simp: rowGroupInv_def)
qed

lemma groupedWriter:
  "rowWriter groupedTable (Inr emptyWriter) (map withMaxRows [4])
     = Inr \<lparr>writer = emptyWriter, rowGroupSize = 2, maxNumRows = 4,
            rowGroupRowsWritten = 0, totalRowsWritten = 0, rowsBuf = 2\<rparr>"
  by (simp add: rowWriter_def groupedTable_def withMaxRows_def)

lemma groupedWriter_run:
  "writeRows \<lparr>writer = emptyWriter, rowGroupSize = 2, maxNumRows = 4,
            rowGroupRowsWritten = 0, totalRowsWritten = 0, rowsBuf = 2\<rparr> fiveRows
   = ((4, None),
      \<lparr>writer = \<lparr>rowGroups = [[[Int64 1], [Int64 2]], [[Int64 3], [Int64 4]]], buffered = [], wfaults = []\<rparr>,
       rowGroupSize = 2, maxNumRows = 4, rowGroupRowsWritten = 0, totalRowsWritten = 4, rowsBuf = 2\<rparr>,
      [Rows [[Int64 5]]])"
  by (simp add: writeRows_def writeRows_loop.simps writeRows_body_def cutRowsBuf_def
      writeRows_written_def pw_WriteRows_def pw_Flush_def emptyWriter_def fiveRows_def Let_def)

text \<open>
  What a call writes: the rows read are the next rows of the reader, and they are the
  rows handed to the Parquet writer, in order.
\<close>

lemma ReadRows_rows:
  "ReadRows k rows = ((n, rs, err), rows') \<Longrightarrow> err = None \<or> err = Some EOF \<Longrightarrow>
     rs = take n (allRows rows) \<and> allRows rows' = drop n (allRows rows)"
  by (induction k rows rule: ReadRows.induct) (auto split: if_splits)

lemma ReadRows_plain:
  "ReadRows k rows = ((n, rs, err), rows') \<Longrightarrow> plainReader rows \<Longrightarrow> 0 < k \<Longrightarrow>
     (err = None \<or> err = Some EOF) \<and> plainReader rows' \<and> (n = 0 \<longleftrightarrow> rows = [])
     \<and> (rows = [] \<longrightarrow> rows' = [])"
  by (induction k rows rule: ReadRows.induct) (auto split: if_splits)

lemma writeRows_written_rows:
  "case writeRows_written p n rs rows' w of
     Return res q r \<Rightarrow>
       snd res \<noteq> None \<and> (rowGroupSize p \<le> 0 \<longrightarrow> rowGroups (writer q) = rowGroups (writer p))
   | Continue q r w' \<Rightarrow>
       writtenRows (writer q) = writtenRows (writer p) @ rs \<and> r = rows' \<and> w' = w + int n
       \<and> rowGroupSize q = rowGroupSize p
       \<and> (rowGroupSize p \<le> 0 \<longrightarrow> rowGroups (writer q) = rowGroups (writer p))"
proof -
  obtain eo pw where wr: "pw_WriteRows rs (writer p) = (eo, pw)" by (cases "pw_WriteRows rs (writer p)")
  show ?thesis
  proof (cases eo)
    case (Some e)
    from pw_WriteRows_fail[OF wr[unfolded Some]] show ?thesis
      by (simp add: writeRows_written_def wr Some)
  next
    case None
    note w1 = pw_WriteRows_ok[OF wr[unfolded None]]
    obtain fo pw' where fl: "pw_Flush pw = (fo, pw')" by (cases "pw_Flush pw")
    show ?thesis
    proof (cases fo)
      case (Some e)
      from pw_Flush_fail[OF fl[unfolded Some]] w1 show ?thesis
        by (auto simp: writeRows_written_def wr None fl Some Let_def writtenRows_def)
    next
      case None2: None
      from pw_Flush_ok[OF fl[unfolded None2]] w1 show ?thesis
        by (auto simp: writeRows_written_def wr None fl None2 Let_def writtenRows_def)
    qed
  qed
qed

lemma writeRows_body_rows:
  "case writeRows_body p rows w of
     Return res q r \<Rightarrow>
       (snd res = None \<longrightarrow> fst res = w \<and> writtenRows (writer q) = writtenRows (writer p)
            \<and> allRows r = allRows rows)
       \<and> (rowGroupSize p \<le> 0 \<longrightarrow> rowGroups (writer q) = rowGroups (writer p))
   | Continue q r w' \<Rightarrow>
       w \<le> w' \<and> nat (w' - w) \<le> length (allRows rows)
       \<and> writtenRows (writer q) = writtenRows (writer p) @ take (nat (w' - w)) (allRows rows)
       \<and> allRows r = drop (nat (w' - w)) (allRows rows)
       \<and> rowGroupSize q = rowGroupSize p
       \<and> (rowGroupSize p \<le> 0 \<longrightarrow> rowGroups (writer q) = rowGroups (writer p))"
proof (cases "cutRowsBuf p")
  case (Inl e)
  then show ?thesis by (simp add: writeRows_body_def)
next
  case (Inr p2)
  note c = cutRowsBuf_Inr(1)[OF Inr]
  have f: "rowGroupSize p2 = rowGroupSize p" "writer p2 = writer p"
    by (subst c, simp)+
  obtain n rs err rows' where rd: "ReadRows (rowsBuf p2) rows = ((n, rs, err), rows')"
    by (metis prod.exhaust)
  show ?thesis
  proof (cases "err \<noteq> None \<and> err \<noteq> Some EOF")
    case True
    then show ?thesis using f by (auto simp: writeRows_body_def Inr rd)
  next
    case noerr: False
    note rr = ReadRows_rows[OF rd]
    show ?thesis
    proof (cases "n = 0")
      case True
      then show ?thesis using f noerr rr by (auto simp: writeRows_body_def Inr rd)
    next
      case False
      have b: "writeRows_body p rows w = writeRows_written p2 n rs rows' w"
        using noerr False by (auto simp: writeRows_body_def Inr rd)
      have nl: "n \<le> length (allRows rows)"
        using rr noerr ReadRows_bound[OF rd] by (metis length_take min.cobounded1 min.commute)
      from nl writeRows_written_rows[where p = p2 and n = n and rs = rs and rows' = rows' and w = w] noerr rr
      show ?thesis unfolding b f
        by (cases "writeRows_written p2 n rs rows' w") auto
    qed
  qed
qed

lemma writeRows_loop_rows:
  "writeRows_loop p rows w = (res, p', rows') \<Longrightarrow>
     (snd res = None \<longrightarrow>
        w \<le> fst res \<and> nat (fst res - w) \<le> length (allRows rows)
        \<and> writtenRows (writer p') = writtenRows (writer p) @ take (nat (fst res - w)) (allRows rows)
        \<and> allRows rows' = drop (nat (fst res - w)) (allRows rows))
     \<and> (rowGroupSize p \<le> 0 \<longrightarrow> rowGroups (writer p') = rowGroups (writer p))"
proof (induction p rows w arbitrary: res p' rows' rule: writeRows_loop.induct)
  case (1 p rows w)
  show ?case
  proof (cases "maxNumRows p = 0 \<or> totalRowsWritten p < maxNumRows p")
    case False
    with "1.prems" have "res = (w, None)" "p' = p" "rows' = rows"
      by (simp_all add: writeRows_loop.simps)
    then show ?thesis by simp
  next
    case True
    show ?thesis
    proof (cases "writeRows_body p rows w")
      case (Return r q rs)
      with "1.prems" True have e: "res = r" "p' = q" "rows' = rs"
        by (simp_all add: writeRows_loop.simps)
      from writeRows_body_rows[where p = p and rows = rows and w = w] Return e show ?thesis by simp
    next
      case (Continue q rs w')
      with "1.prems" True have l: "writeRows_loop q rs w' = (res, p', rows')"
        by (simp add: writeRows_loop.simps)
      note ih = "1.IH"[OF True Continue l]
      from writeRows_body_rows[where p = p and rows = rows and w = w] Continue
      have st: "w \<le> w'" "nat (w' - w) \<le> length (allRows rows)"
        "writtenRows (writer q) = writtenRows (writer p) @ take (nat (w' - w)) (allRows rows)"
        "allRows rs = drop (nat (w' - w)) (allRows rows)"
        "rowGroupSize q = rowGroupSize p"
        "rowGroupSize p \<le> 0 \<longrightarrow> rowGroups (writer q) = rowGroups (writer p)" by simp_all
      have a: "snd res = None \<longrightarrow>
        w \<le> fst res \<and> nat (fst res - w) \<le> length (allRows rows)
        \<and> writtenRows (writer p') = writtenRows (writer p) @ take (nat (fst res - w)) (allRows rows)
        \<and> allRows rows' = drop (nat (fst res - w)) (allRows rows)"
      proof
        assume n: "snd res = None"
        with ih have i: "w' \<le> fst res" "nat (fst res - w') \<le> length (allRows rs)"
          "writtenRows (writer p') = writtenRows (writer q) @ take (nat (fst res - w')) (allRows rs)"
          "allRows rows' = drop (nat (fst res - w')) (allRows rs)" by simp_all
        have s: "nat (fst res - w) = nat (w' - w) + nat (fst res - w')" using st(1) i(1) by simp
        have "take (nat (fst res - w)) (allRows rows)
                = take (nat (w' - w)) (allRows rows)
                  @ take (nat (fst res - w')) (drop (nat (w' - w)) (allRows rows))"
          unfolding s by (rule take_add)
        moreover have "drop (nat (fst res - w)) (allRows rows)
                = drop (nat (fst res - w')) (drop (nat (w' - w)) (allRows rows))"
          unfolding s by (simp add: add.commute)
        moreover have "nat (fst res - w) \<le> length (allRows rows)"
          unfolding s using i(2) st(2,4) by simp
        ultimately show "w \<le> fst res \<and> nat (fst res - w) \<le> length (allRows rows)
        \<and> writtenRows (writer p') = writtenRows (writer p) @ take (nat (fst res - w)) (allRows rows)
        \<and> allRows rows' = drop (nat (fst res - w)) (allRows rows)"
          using st i by simp
      qed
      have b: "rowGroupSize p \<le> 0 \<longrightarrow> rowGroups (writer p') = rowGroups (writer p)"
        using ih st(5,6) by simp
      from a b show ?thesis by blast
    qed
  qed
qed

text \<open>
  A call that nothing hinders reads and writes in every turn, until the reader is empty
  or the limit is reached.
\<close>

lemma cutRowsBuf_unhindered:
  assumes h: "unhindered p rows" and lc: "maxNumRows p = 0 \<or> totalRowsWritten p < maxNumRows p"
  shows "\<exists>k. cutRowsBuf p = Inr (p\<lparr>rowsBuf := k\<rparr>) \<and> 0 < k
           \<and> (0 < rowGroupSize p \<longrightarrow> rowGroupRowsWritten p + int k \<le> rowGroupSize p)
           \<and> (maxNumRows p \<noteq> 0 \<longrightarrow> totalRowsWritten p + int k \<le> maxNumRows p)"
proof -
  from h have b: "0 < rowsBuf p" and g: "0 < rowGroupSize p \<longrightarrow> rowGroupRowsWritten p < rowGroupSize p"
    by (simp_all add: unhindered_def)
  let ?cut1 = "rowGroupSize p > 0 \<and> rowGroupRowsWritten p + int (rowsBuf p) > rowGroupSize p"
  let ?p1 = "if ?cut1 then p\<lparr>rowsBuf := nat (rowGroupSize p - rowGroupRowsWritten p)\<rparr> else p"
  let ?cut2 = "maxNumRows ?p1 \<noteq> 0 \<and> totalRowsWritten ?p1 + int (rowsBuf ?p1) > maxNumRows ?p1"
  let ?p2 = "if ?cut2 then ?p1\<lparr>rowsBuf := nat (maxNumRows ?p1 - totalRowsWritten ?p1)\<rparr> else ?p1"
  have c: "cutRowsBuf p = Inr ?p2"
    using g lc by (auto simp: cutRowsBuf_def Let_def)
  define k where "k = rowsBuf ?p2"
  have e: "?p2 = p\<lparr>rowsBuf := k\<rparr>" unfolding k_def by simp
  have k1: "0 < rowsBuf ?p1" using b g by auto
  have k2: "0 < k" unfolding k_def using k1 lc by auto
  have g2: "0 < rowGroupSize p \<longrightarrow> rowGroupRowsWritten p + int k \<le> rowGroupSize p"
    unfolding k_def using g by auto
  have m2: "maxNumRows p \<noteq> 0 \<longrightarrow> totalRowsWritten p + int k \<le> maxNumRows p"
    unfolding k_def using lc by auto
  have c': "cutRowsBuf p = Inr (p\<lparr>rowsBuf := k\<rparr>)" using c by (simp only: e[symmetric])
  from c' k2 g2 m2 show ?thesis by blast
qed

lemma writeRows_written_unhindered:
  assumes f: "wfaults (writer p) = []" and n: "0 < n"
    and g: "0 < rowGroupSize p \<longrightarrow> rowGroupRowsWritten p + int n \<le> rowGroupSize p"
    and b: "0 < rowsBuf p"
  shows "\<exists>q. writeRows_written p n rs rows' w = Continue q rows' (w + int n)
           \<and> wfaults (writer q) = [] \<and> rowsBuf q = rowsBuf p
           \<and> maxNumRows q = maxNumRows p \<and> rowGroupSize q = rowGroupSize p
           \<and> totalRowsWritten q = totalRowsWritten p + int n
           \<and> (0 < rowGroupSize p \<longrightarrow> rowGroupRowsWritten q < rowGroupSize p)"
  using f n g b
  by (auto simp: writeRows_written_def pw_WriteRows_def pw_Flush_def Let_def)

lemma writeRows_body_unhindered:
  assumes h: "unhindered p rows" and lc: "maxNumRows p = 0 \<or> totalRowsWritten p < maxNumRows p"
  shows "(rows = [] \<and> (\<exists>q. writeRows_body p rows w = Return (w, None) q []))
     \<or> (\<exists>q r n. writeRows_body p rows w = Continue q r (w + int n) \<and> 0 < n
           \<and> unhindered q r
           \<and> int (length (allRows r)) = int (length (allRows rows)) - int n
           \<and> n \<le> length (allRows rows)
           \<and> maxNumRows q = maxNumRows p
           \<and> totalRowsWritten q = totalRowsWritten p + int n
           \<and> (maxNumRows p \<noteq> 0 \<longrightarrow> totalRowsWritten p + int n \<le> maxNumRows p))"
proof -
  from cutRowsBuf_unhindered[OF h lc] obtain k where
    c: "cutRowsBuf p = Inr (p\<lparr>rowsBuf := k\<rparr>)" and k: "0 < k"
    and gk: "0 < rowGroupSize p \<longrightarrow> rowGroupRowsWritten p + int k \<le> rowGroupSize p"
    and mk: "maxNumRows p \<noteq> 0 \<longrightarrow> totalRowsWritten p + int k \<le> maxNumRows p" by blast
  let ?p2 = "p\<lparr>rowsBuf := k\<rparr>"
  from h have pl: "plainReader rows" and wf: "wfaults (writer p) = []"
    by (simp_all add: unhindered_def)
  obtain n rs err rows' where rd: "ReadRows k rows = ((n, rs, err), rows')"
    by (metis prod.exhaust)
  note rp = ReadRows_plain[OF rd pl k]
  note rr = ReadRows_rows[OF rd conjunct1[OF rp]]
  note rb = ReadRows_bound[OF rd]
  show ?thesis
  proof (cases "n = 0")
    case True
    with rp have "rows = []" "rows' = []" by simp_all
    moreover have "writeRows_body p rows w = Return (w, None) ?p2 rows'"
      using True rp by (auto simp: writeRows_body_def c rd)
    ultimately show ?thesis by blast
  next
    case False
    then have n: "0 < n" by simp
    have b: "writeRows_body p rows w = writeRows_written ?p2 n rs rows' w"
      using False rp by (auto simp: writeRows_body_def c rd)
    have g2: "0 < rowGroupSize ?p2 \<longrightarrow> rowGroupRowsWritten ?p2 + int n \<le> rowGroupSize ?p2"
      using gk rb by auto
    from writeRows_written_unhindered[where p = ?p2 and n = n and rs = rs and rows' = rows' and w = w,
        OF _ n g2] wf k
    obtain q where q: "writeRows_written ?p2 n rs rows' w = Continue q rows' (w + int n)"
      "wfaults (writer q) = []" "rowsBuf q = k" "maxNumRows q = maxNumRows p"
      "rowGroupSize q = rowGroupSize p" "totalRowsWritten q = totalRowsWritten p + int n"
      "0 < rowGroupSize p \<longrightarrow> rowGroupRowsWritten q < rowGroupSize p" by auto
    have len: "length rs = n" using rb by simp
    have nl: "n \<le> length (allRows rows)"
      using rr len by (metis length_take min.cobounded1 min.commute)
    have ll: "int (length (allRows rows')) = int (length (allRows rows)) - int n"
      using rr nl by simp
    have u: "unhindered q rows'"
      using q rp k by (simp add: unhindered_def)
    have m: "maxNumRows p \<noteq> 0 \<longrightarrow> totalRowsWritten p + int n \<le> maxNumRows p"
      using mk rb by auto
    from b q(1) n u ll nl q(4,6) m show ?thesis by auto
  qed
qed

lemma writeRows_loop_unhindered:
  "writeRows_loop p rows w = (res, p', rows') \<Longrightarrow> unhindered p rows \<Longrightarrow>
     res = (w + rowsAllowed p rows, None)"
proof (induction p rows w arbitrary: res p' rows' rule: writeRows_loop.induct)
  case (1 p rows w)
  show ?case
  proof (cases "maxNumRows p = 0 \<or> totalRowsWritten p < maxNumRows p")
    case False
    with "1.prems" have "res = (w, None)" by (simp add: writeRows_loop.simps)
    moreover from False have "rowsAllowed p rows = 0" by (simp add: rowsAllowed_def)
    ultimately show ?thesis by simp
  next
    case True
    from writeRows_body_unhindered[OF "1.prems"(2) True, of w]
    show ?thesis
    proof (elim disjE conjE exE)
      fix q
      assume e: "rows = []" and b: "writeRows_body p rows w = Return (w, None) q []"
      with "1.prems" True have "res = (w, None)" by (simp add: writeRows_loop.simps)
      moreover from e True have "rowsAllowed p rows = 0" by (auto simp: rowsAllowed_def)
      ultimately show ?thesis by simp
    next
      fix q r n
      assume b: "writeRows_body p rows w = Continue q r (w + int n)" and n: "0 < n"
        and u: "unhindered q r"
        and ll: "int (length (allRows r)) = int (length (allRows rows)) - int n"
        and nl: "n \<le> length (allRows rows)"
        and mq: "maxNumRows q = maxNumRows p"
        and tq: "totalRowsWritten q = totalRowsWritten p + int n"
        and mb: "maxNumRows p \<noteq> 0 \<longrightarrow> totalRowsWritten p + int n \<le> maxNumRows p"
      from "1.prems" True b have l: "writeRows_loop q r (w + int n) = (res, p', rows')"
        by (simp add: writeRows_loop.simps)
      from "1.IH"[OF True b l u] have ih: "res = (w + int n + rowsAllowed q r, None)" .
      have "int n + rowsAllowed q r = rowsAllowed p rows"
        using ll nl mq tq mb n by (auto simp: rowsAllowed_def)
      with ih show ?thesis by simp
    qed
  qed
qed

text \<open>
  Full row groups and a counter below \<open>rowGroupSize\<close> fix the number of flushes. A
  writer fresh from \<open>rowWriter\<close> is not hindered.
\<close>

lemma concat_full_groups:
  "list_all (\<lambda>g. int (length g) = G) gs \<Longrightarrow> int (length (concat gs)) = int (length gs) * G"
  by (induction gs) (simp_all add: algebra_simps)

lemma flush_count:
  assumes inv: "rowGroupInv p" and inv': "rowGroupInv p'" and G: "0 < rowGroupSize p"
    and rs: "rowGroupSize p' = rowGroupSize p"
    and gs: "rowGroups (writer p') = rowGroups (writer p) @ gs"
      "list_all (\<lambda>g. int (length g) = rowGroupSize p) gs"
    and less: "rowGroupRowsWritten p' < rowGroupSize p"
    and wr: "writtenRows (writer p') = writtenRows (writer p) @ xs"
  shows "int (length gs) = (rowGroupRowsWritten p + int (length xs)) div rowGroupSize p
     \<and> rowGroupRowsWritten p' = (rowGroupRowsWritten p + int (length xs)) mod rowGroupSize p"
proof -
  from inv have b: "int (length (buffered (writer p))) = rowGroupRowsWritten p"
    by (simp add: rowGroupInv_def)
  from inv' have b': "int (length (buffered (writer p'))) = rowGroupRowsWritten p'"
    by (simp add: rowGroupInv_def)
  from wr gs(1) have "concat gs @ buffered (writer p') = buffered (writer p) @ xs"
    by (simp add: writtenRows_def)
  then have "length (concat gs @ buffered (writer p')) = length (buffered (writer p) @ xs)" by simp
  then have "int (length (concat gs)) + int (length (buffered (writer p')))
           = int (length (buffered (writer p))) + int (length xs)" by simp
  with concat_full_groups[OF gs(2)] b b'
  have e: "rowGroupRowsWritten p + int (length xs)
             = rowGroupSize p * int (length gs) + rowGroupRowsWritten p'"
    by (simp add: algebra_simps)
  have nn: "0 \<le> rowGroupRowsWritten p'" using b' by linarith
  from int_div_pos_eq[OF e nn less] int_mod_pos_eq[OF e nn less] show ?thesis by simp
qed

lemma rowWriter_unhindered:
  assumes "rowWriter t (Inr pw) (map withMaxRows ms) = Inr q"
    and "wfaults pw = []" and "plainReader rows"
  shows "unhindered q rows"
proof -
  let ?b = "if RowGroupSize (config t) > 0 then sint (RowGroupSize (config t)) else 256"
  let ?p0 = "\<lparr>writer = pw, rowGroupSize = sint (RowGroupSize (config t)), maxNumRows = 0,
                      rowGroupRowsWritten = 0, totalRowsWritten = 0, rowsBuf = nat ?b\<rparr>"
  from assms(1) have q: "q = fold (\<lambda>option p. option p) (map withMaxRows ms) ?p0"
    and nb: "\<not> ?b < 0"
    by (auto simp: rowWriter_def Let_def split: if_splits)
  from fold_withMaxRows[of ms ?p0] obtain m where qm: "q = ?p0\<lparr>maxNumRows := m\<rparr>"
    unfolding q by blast
  have z: "RowGroupSize (config t) > 0 \<Longrightarrow> sint (RowGroupSize (config t)) \<noteq> 0"
    by (auto simp: word_greater_zero_iff signed_eq_0_iff)
  have "0 < ?b" using nb z by (auto split: if_splits)
  then show ?thesis using assms(2,3) unfolding qm unhindered_def by auto
qed

lemma plainWriter:
  "rowWriter (exampleTable 100 []) (Inr emptyWriter) []
     = Inr \<lparr>writer = emptyWriter, rowGroupSize = 0, maxNumRows = 0,
            rowGroupRowsWritten = 0, totalRowsWritten = 0, rowsBuf = 256\<rparr>"
  by (simp add: rowWriter_def exampleTable_def)

lemma plainWriter_run:
  "writeRows \<lparr>writer = emptyWriter, rowGroupSize = 0, maxNumRows = 0,
            rowGroupRowsWritten = 0, totalRowsWritten = 0, rowsBuf = 256\<rparr> fiveRows
   = ((5, None),
      \<lparr>writer = \<lparr>rowGroups = [],
                 buffered = [[Int64 1], [Int64 2], [Int64 3], [Int64 4], [Int64 5]], wfaults = []\<rparr>,
       rowGroupSize = 0, maxNumRows = 0, rowGroupRowsWritten = 5, totalRowsWritten = 5, rowsBuf = 256\<rparr>,
      [])"
  by (simp add: writeRows_def writeRows_loop.simps writeRows_body_def cutRowsBuf_def
      writeRows_written_def pw_WriteRows_def pw_Flush_def emptyWriter_def fiveRows_def Let_def)

text \<open>
  The only panic on the path is the cut of \<open>rowsBuf\<close> to a negative length, which
  needs a row group counter above \<open>rowGroupSize\<close>.
\<close>

lemma ReadRows_error:
  "ReadRows k rows = ((n, rs, err), rows') \<Longrightarrow> err \<noteq> Some (Panic m)"
  by (induction k rows rule: ReadRows.induct) (auto split: if_splits)

lemma writeRows_written_error:
  "writeRows_written p n rs rows' w = Return res q r \<Longrightarrow> snd res \<noteq> Some (Panic m)"
  by (auto simp: writeRows_written_def pw_WriteRows_def pw_Flush_def Let_def
      split: prod.splits option.splits list.splits if_splits)

lemma cutRowsBuf_no_panic:
  assumes "0 < rowGroupSize p \<longrightarrow> rowGroupRowsWritten p \<le> rowGroupSize p"
    and "maxNumRows p = 0 \<or> totalRowsWritten p < maxNumRows p"
  shows "\<exists>p2. cutRowsBuf p = Inr p2"
  using assms by (auto simp: cutRowsBuf_def Let_def)

lemma writeRows_body_no_panic:
  assumes g: "0 < rowGroupSize p \<longrightarrow> rowGroupRowsWritten p \<le> rowGroupSize p"
    and lc: "maxNumRows p = 0 \<or> totalRowsWritten p < maxNumRows p"
    and b: "writeRows_body p rows w = Return res q r"
  shows "snd res \<noteq> Some (Panic m)"
proof -
  from cutRowsBuf_no_panic[OF g lc] obtain p2 where c: "cutRowsBuf p = Inr p2" by blast
  obtain n rs err rows' where rd: "ReadRows (rowsBuf p2) rows = ((n, rs, err), rows')"
    by (metis prod.exhaust)
  from b ReadRows_error[OF rd, of m] writeRows_written_error[of p2 n rs rows' w res q r m]
  show ?thesis
    by (auto simp: writeRows_body_def c rd split: if_splits)
qed

lemma writeRows_loop_no_panic:
  "writeRows_loop p rows w = (res, p', rows') \<Longrightarrow>
     0 < rowGroupSize p \<longrightarrow> rowGroupRowsWritten p \<le> rowGroupSize p \<Longrightarrow>
     snd res \<noteq> Some (Panic m)"
proof (induction p rows w arbitrary: res p' rows' rule: writeRows_loop.induct)
  case (1 p rows w)
  show ?case
  proof (cases "maxNumRows p = 0 \<or> totalRowsWritten p < maxNumRows p")
    case False
    with "1.prems" have "res = (w, None)" by (simp add: writeRows_loop.simps)
    then show ?thesis by simp
  next
    case True
    show ?thesis
    proof (cases "writeRows_body p rows w")
      case (Return r q rs)
      with "1.prems" True have e: "res = r" by (simp add: writeRows_loop.simps)
      from writeRows_body_no_panic[OF "1.prems"(2) True Return] e show ?thesis by simp
    next
      case (Continue q rs w')
      with "1.prems" True have l: "writeRows_loop q rs w' = (res, p', rows')"
        by (simp add: writeRows_loop.simps)
      from writeRows_body_within[where p = p and rows = rows and w = w] Continue
      have st: "writesWithin p q" "0 < rowGroupSize p \<longrightarrow> rowGroupRowsWritten q < rowGroupSize p"
        by simp_all
      have "0 < rowGroupSize q \<longrightarrow> rowGroupRowsWritten q \<le> rowGroupSize q"
        using st by (auto simp: writesWithin_def)
      from "1.IH"[OF True Continue l this] show ?thesis .
    qed
  qed
qed

section \<open>The schema scan\<close>

lemma SchemaIterator_item_ok:
  "SchemaIterator_item cb rg = (out, None) \<Longrightarrow>
     rg \<noteq> OtherItem \<and> out = Some (schemaNamesRecord (itemFields rg))
     \<and> cb (schemaNamesRecord (itemFields rg)) = None"
  by (cases rg) (auto simp: SchemaIterator_item_def itemFields_def Let_def)

lemma SchemaIterator_workers_ok:
  "SchemaIterator_workers cbs sched i rgs = (tr, None) \<Longrightarrow>
     map snd tr = map (\<lambda>rg. schemaNamesRecord (itemFields rg)) rgs
     \<and> OtherItem \<notin> set rgs
     \<and> list_all (\<lambda>(k, r). k < length cbs \<or> cbs = []) tr
     \<and> list_all (\<lambda>(k, r). (cbs ! k) r = None) tr"
proof (induction rgs arbitrary: i tr)
  case Nil
  then show ?case by simp
next
  case (Cons rg rgs)
  let ?k = "sched i mod length cbs"
  obtain out eo where it: "SchemaIterator_item (cbs ! ?k) rg = (out, eo)"
    by (cases "SchemaIterator_item (cbs ! ?k) rg")
  show ?case
  proof (cases eo)
    case (Some e)
    with Cons.prems it show ?thesis by (simp add: Let_def)
  next
    case None
    obtain tr' res where rest: "SchemaIterator_workers cbs sched (Suc i) rgs = (tr', res)"
      by (cases "SchemaIterator_workers cbs sched (Suc i) rgs")
    from Cons.prems it None rest have res: "res = None"
      and tr: "tr = map (Pair ?k) (case out of None \<Rightarrow> [] | Some r \<Rightarrow> [r]) @ tr'"
      by (simp_all add: Let_def)
    note ih = Cons.IH[OF rest[unfolded res]]
    note ok = SchemaIterator_item_ok[OF it[unfolded None]]
    have k: "?k < length cbs \<or> cbs = []" by (cases cbs) simp_all
    show ?thesis using ih ok k by (auto simp: tr)
  qed
qed

lemma collectRowGroups_loop_ok:
  "collectRowGroups_loop srcs ts = (items, None) \<Longrightarrow>
     items = concat (map (\<lambda>source. fst (source ts)) srcs)
     \<and> list_all (\<lambda>source. snd (source ts) = None) srcs"
proof (induction srcs arbitrary: items)
  case Nil
  then show ?case by simp
next
  case (Cons s srcs)
  obtain its eo where s: "s ts = (its, eo)" by (cases "s ts")
  obtain rest r where l: "collectRowGroups_loop srcs ts = (rest, r)"
    by (cases "collectRowGroups_loop srcs ts")
  from Cons.prems s l have "eo = None" "r = None" "items = its @ rest"
    by (auto split: option.splits)
  with Cons.IH[of rest] l s show ?case by simp
qed

lemma scanTable_run:
  "fst (SchemaIterator liveCtx 1 [okCallback] (\<lambda>i. 0) scanTable)
     = ([(0, schemaNamesRecord [''a'']), (0, schemaNamesRecord [''a'', ''b'']),
         (0, schemaNamesRecord [''a''])], None)"
  by (simp add: SchemaIterator_def liveCtx_def collectRowGroups_def memoryBlocks_def scanTable_def
      exampleTable_def pendingReadersWg_Add_def threeGroups_def LSM_Scan_def newTableBlock_def
      SchemaIterator_item_def okCallback_def Let_def)


section \<open>The Synchronize barrier: the invariant along every schedule\<close>

text \<open>
  Counting producers by program point: what one update of the list changes.
\<close>

lemma cnt_update:
  "i < length ps \<Longrightarrow>
     cnt P (ps[i := v]) = cnt P ps - (if P (ps ! i) then 1 else 0) + (if P v then 1 else 0)"
proof (induction ps arbitrary: i)
  case Nil
  then show ?case by simp
next
  case (Cons a ps)
  show ?case
  proof (cases i)
    case 0
    then show ?thesis by (simp add: cnt_def)
  next
    case (Suc j)
    with Cons.prems have "j < length ps" by simp
    from Cons.IH[OF this] Suc show ?thesis by (auto simp: cnt_def split: if_splits)
  qed
qed

lemma cnt_nonneg: "0 \<le> cnt P ps"
  by (simp add: cnt_def)

lemma cnt_pos: "i < length ps \<Longrightarrow> P (ps ! i) \<Longrightarrow> 1 \<le> cnt P ps"
proof -
  assume "i < length ps" "P (ps ! i)"
  then have "ps ! i \<in> set (filter P ps)" by simp
  then have "filter P ps \<noteq> []" by (metis empty_iff empty_set)
  then show ?thesis unfolding cnt_def by (cases "filter P ps") simp_all
qed

lemma cnt_zero_iff: "cnt P ps = 0 \<longleftrightarrow> \<not> list_ex P ps"
  by (simp add: cnt_def list_ex_iff filter_empty_conv)

lemma left_update:
  "i < length ps \<Longrightarrow>
     sum_list (map callbacksLeft (ps[i := v]))
       = sum_list (map callbacksLeft ps) - callbacksLeft (ps ! i) + callbacksLeft v"
proof (induction ps arbitrary: i)
  case Nil
  then show ?case by simp
next
  case (Cons a ps)
  show ?case
  proof (cases i)
    case 0
    then show ?thesis by simp
  next
    case (Suc j)
    with Cons.prems have "j < length ps" by simp
    from Cons.IH[OF this] Suc show ?thesis by simp
  qed
qed

lemma cnt_all: "cnt P ps = int (length ps) \<longleftrightarrow> list_all P ps"
proof (induction ps)
  case Nil
  then show ?case by (simp add: cnt_def)
next
  case (Cons a ps)
  have le: "int (length (filter P ps)) \<le> int (length ps)" by simp
  show ?case
  proof (cases "P a")
    case True
    with Cons show ?thesis by (simp add: cnt_def)
  next
    case False
    have "int (length (filter P ps)) \<noteq> 1 + int (length ps)"
      using length_filter_le[of P ps] by linarith
    with False show ?thesis by (simp add: cnt_def)
  qed
qed

lemma start_inv: "barrierInv ks (start ks)"
proof -
  have u: "cnt isUnregistered (map Unregistered ks) = int (length ks)"
    by (induction ks) (simp_all add: cnt_def)
  have a: "cnt awaited (map Unregistered ks) = 0"
    by (induction ks) (simp_all add: cnt_def)
  have d: "cnt decremented (map Unregistered ks) = 0"
    by (induction ks) (simp_all add: cnt_def)
  have z: "cnt (\<lambda>p. p = CounterZero) (map Unregistered ks) = 0"
    by (induction ks) (simp_all add: cnt_def)
  have n: "cnt inSink (map Unregistered ks) = 0"
    by (induction ks) (simp_all add: cnt_def)
  have l: "sum_list (map (callbacksLeft \<circ> Unregistered) ks) = int (sum_list ks)"
    by (induction ks) simp_all
  show ?thesis
    by (simp add: barrierInv_def mutexInv_def start_def u a d z n l)
qed

text \<open>
  The mutex: a step of its owner keeps it, a release frees it, and nobody else is in
  the sink while the owner is outside.
\<close>

lemma step_cases:
  assumes "producerStep i s = Some s'"
  shows "i < length (producers s)"
  using assms by (auto simp: producerStep_def split: if_splits)

lemma inSink_holds: "inSink p \<Longrightarrow> holdsMutex p"
  by (cases p) simp_all

lemma mutex_holder: "mutexInv ps m \<Longrightarrow> i < length ps \<Longrightarrow> holdsMutex (ps ! i) \<Longrightarrow> m = Some i"
  by (simp add: mutexInv_def)

lemma mutex_keep:
  assumes "mutexInv ps m" and "i < length ps" and "holdsMutex (ps ! i)"
  shows "mutexInv (ps[i := q]) m"
  unfolding mutexInv_def
proof (intro allI impI)
  fix j assume j: "j < length (ps[i := q])" and h: "holdsMutex (ps[i := q] ! j)"
  show "m = Some j"
  proof (cases "j = i")
    case True
    with mutex_holder[OF assms] show ?thesis by simp
  next
    case False
    with j h have "holdsMutex (ps ! j)" "j < length ps" by simp_all
    with assms(1) show ?thesis by (simp add: mutexInv_def)
  qed
qed

lemma mutex_release:
  assumes "mutexInv ps m" and "i < length ps" and "holdsMutex (ps ! i)" and "\<not> holdsMutex q"
  shows "mutexInv (ps[i := q]) None"
  unfolding mutexInv_def
proof (intro allI impI)
  fix j assume j: "j < length (ps[i := q])" and h: "holdsMutex (ps[i := q] ! j)"
  from j h assms(4) have ne: "j \<noteq> i" by (cases "j = i") simp_all
  with j h have "holdsMutex (ps ! j)" "j < length ps" by simp_all
  with assms(1) have "m = Some j" by (simp add: mutexInv_def)
  moreover from mutex_holder[OF assms(1,2,3)] have "m = Some i" .
  ultimately show "None = Some j" using ne by simp
qed

lemma mutex_acquire:
  assumes "mutexInv ps None" and "i < length ps"
  shows "mutexInv (ps[i := q]) (Some i)"
  unfolding mutexInv_def
proof (intro allI impI)
  fix j assume j: "j < length (ps[i := q])" and h: "holdsMutex (ps[i := q] ! j)"
  show "Some i = Some j"
  proof (cases "j = i")
    case True
    then show ?thesis by simp
  next
    case False
    with j h have "holdsMutex (ps ! j)" "j < length ps" by simp_all
    with assms(1) show ?thesis by (simp add: mutexInv_def)
  qed
qed

lemma mutex_idle:
  assumes "mutexInv ps m" and "i < length ps" and "\<not> holdsMutex q"
  shows "mutexInv (ps[i := q]) m"
  unfolding mutexInv_def
proof (intro allI impI)
  fix j assume j: "j < length (ps[i := q])" and h: "holdsMutex (ps[i := q] ! j)"
  from j h assms(3) have ne: "j \<noteq> i" by (cases "j = i") simp_all
  with j h have "holdsMutex (ps ! j)" "j < length ps" by simp_all
  with assms(1) show "m = Some j" by (simp add: mutexInv_def)
qed

lemma nobody_inSink:
  assumes mu: "mutexInv ps m"
    and i: "i < length ps" and h: "holdsMutex (ps ! i)" and n: "\<not> inSink (ps ! i)"
  shows "cnt inSink ps = 0"
proof -
  have "\<not> list_ex inSink ps"
  proof
    assume "list_ex inSink ps"
    then obtain j where j: "j < length ps" "inSink (ps ! j)"
      by (auto simp: list_ex_iff in_set_conv_nth)
    with mu inSink_holds have "m = Some j" by (simp add: mutexInv_def)
    moreover from mutex_holder[OF mu i h] have "m = Some i" .
    ultimately have "j = i" by simp
    with j n show False by simp
  qed
  then show ?thesis by (simp add: cnt_zero_iff)
qed

lemma cnt_step:
  "i < length ps \<Longrightarrow> ps ! i = p \<Longrightarrow>
     cnt P (ps[i := q]) = cnt P ps - (if P p then 1 else 0) + (if P q then 1 else 0)"
  using cnt_update[of i ps P q] by simp

lemma left_step:
  "i < length ps \<Longrightarrow> ps ! i = p \<Longrightarrow>
     sum_list (map callbacksLeft (ps[i := q]))
       = sum_list (map callbacksLeft ps) - callbacksLeft p + callbacksLeft q"
  using left_update[of i ps q] by simp

lemma cnt_here: "i < length ps \<Longrightarrow> ps ! i = p \<Longrightarrow> P p \<Longrightarrow> 1 \<le> cnt P ps"
  using cnt_pos[of i ps P] by simp

text \<open>
  Each kind of step keeps the invariant.
\<close>

lemma inv_Unregistered:
  assumes inv: "barrierInv ks s" and i: "i < length (producers s)"
    and p: "producers s ! i = Unregistered k"
  shows "barrierInv ks (s\<lparr>producers := (producers s)[i := Ready k], counter := counter s + 1\<rparr>)"
proof -
  note c = cnt_step[OF i p] and l = left_step[OF i p]
  have m: "mutexInv ((producers s)[i := Ready k]) (mutex s)"
    using inv i by (intro mutex_idle) (simp_all add: barrierInv_def)
  have u: "1 \<le> cnt isUnregistered (producers s)" by (rule cnt_here[OF i p]) simp
  have d: "0 \<le> cnt decremented (producers s)" by (rule cnt_nonneg)
  show ?thesis
    using inv m u d unfolding barrierInv_def
    by (simp add: c l)
qed

lemma inv_Ready:
  assumes inv: "barrierInv ks s" and i: "i < length (producers s)"
    and p: "producers s ! i = Ready k" and f: "mutex s = None"
  shows "barrierInv ks (s\<lparr>producers := (producers s)[i := (case k of 0 \<Rightarrow> FinishLocked
                                                             | Suc k' \<Rightarrow> CallbackLocked k')],
                        mutex := Some i\<rparr>)"
proof -
  note c = cnt_step[OF i p] and l = left_step[OF i p]
  have m: "\<And>q. mutexInv ((producers s)[i := q]) (Some i)"
    using inv i f by (intro mutex_acquire) (simp_all add: barrierInv_def)
  show ?thesis
    using inv m unfolding barrierInv_def
    by (cases k) (simp_all add: c l)
qed

lemma inv_CallbackLocked:
  assumes inv: "barrierInv ks s" and i: "i < length (producers s)"
    and p: "producers s ! i = CallbackLocked k"
  shows "barrierInv ks (s\<lparr>producers := (producers s)[i := InSinkCallback k],
                  sinkRunning := Suc (sinkRunning s),
                  sinkCallbacks := Suc (sinkCallbacks s),
                  overlap := (overlap s \<or> 0 < sinkRunning s)\<rparr>)"
proof -
  note c = cnt_step[OF i p] and l = left_step[OF i p]
  from inv have mi: "mutexInv (producers s) (mutex s)" by (simp add: barrierInv_def)
  have z: "cnt inSink (producers s) = 0"
    by (rule nobody_inSink[OF mi i]) (simp_all add: p)
  have m: "mutexInv ((producers s)[i := InSinkCallback k]) (mutex s)"
    by (rule mutex_keep[OF mi i]) (simp add: p)
  show ?thesis
    using inv m z unfolding barrierInv_def
    by (simp add: c l)
qed

lemma inv_InSinkCallback:
  assumes inv: "barrierInv ks s" and i: "i < length (producers s)"
    and p: "producers s ! i = InSinkCallback k"
  shows "barrierInv ks (s\<lparr>producers := (producers s)[i := CallbackReturned k],
                  sinkRunning := sinkRunning s - 1\<rparr>)"
proof -
  note c = cnt_step[OF i p] and l = left_step[OF i p]
  from inv have mi: "mutexInv (producers s) (mutex s)" by (simp add: barrierInv_def)
  have z: "1 \<le> cnt inSink (producers s)" by (rule cnt_here[OF i p]) simp
  have m: "mutexInv ((producers s)[i := CallbackReturned k]) (mutex s)"
    by (rule mutex_keep[OF mi i]) (simp add: p)
  from inv z have r: "int (sinkRunning s - 1) = cnt inSink (producers s) - 1"
    by (simp add: barrierInv_def)
  show ?thesis
    using inv m z r unfolding barrierInv_def
    by (simp add: c l)
qed

lemma inv_CallbackReturned:
  assumes inv: "barrierInv ks s" and i: "i < length (producers s)"
    and p: "producers s ! i = CallbackReturned k"
  shows "barrierInv ks (s\<lparr>producers := (producers s)[i := Ready k], mutex := None\<rparr>)"
proof -
  note c = cnt_step[OF i p] and l = left_step[OF i p]
  from inv have mi: "mutexInv (producers s) (mutex s)" by (simp add: barrierInv_def)
  have m: "mutexInv ((producers s)[i := Ready k]) None"
    by (rule mutex_release[OF mi i]) (simp_all add: p)
  show ?thesis
    using inv m unfolding barrierInv_def
    by (simp add: c l)
qed

lemma inv_CounterZero:
  assumes inv: "barrierInv ks s" and i: "i < length (producers s)"
    and p: "producers s ! i = CounterZero"
  shows "barrierInv ks (s\<lparr>producers := (producers s)[i := InSinkFinish],
                  sinkRunning := Suc (sinkRunning s),
                  sinkFinishes := Suc (sinkFinishes s),
                  overlap := (overlap s \<or> 0 < sinkRunning s)\<rparr>)"
proof -
  note c = cnt_step[OF i p] and l = left_step[OF i p]
  from inv have mi: "mutexInv (producers s) (mutex s)" by (simp add: barrierInv_def)
  have z: "cnt inSink (producers s) = 0"
    by (rule nobody_inSink[OF mi i]) (simp_all add: p)
  have m: "mutexInv ((producers s)[i := InSinkFinish]) (mutex s)"
    by (rule mutex_keep[OF mi i]) (simp add: p)
  have d: "1 \<le> cnt decremented (producers s)" by (rule cnt_here[OF i p]) simp
  show ?thesis
    using inv m z d unfolding barrierInv_def
    by (simp add: c l)
qed

lemma inv_InSinkFinish:
  assumes inv: "barrierInv ks s" and i: "i < length (producers s)"
    and p: "producers s ! i = InSinkFinish"
  shows "barrierInv ks (s\<lparr>producers := (producers s)[i := FinishReturning],
                  sinkRunning := sinkRunning s - 1\<rparr>)"
proof -
  note c = cnt_step[OF i p] and l = left_step[OF i p]
  from inv have mi: "mutexInv (producers s) (mutex s)" by (simp add: barrierInv_def)
  have z: "1 \<le> cnt inSink (producers s)" by (rule cnt_here[OF i p]) simp
  have m: "mutexInv ((producers s)[i := FinishReturning]) (mutex s)"
    by (rule mutex_keep[OF mi i]) (simp add: p)
  from inv z have r: "int (sinkRunning s - 1) = cnt inSink (producers s) - 1"
    by (simp add: barrierInv_def)
  have d: "1 \<le> cnt decremented (producers s)" by (rule cnt_here[OF i p]) simp
  show ?thesis
    using inv m z r d unfolding barrierInv_def
    by (simp add: c l)
qed

lemma inv_FinishReturning:
  assumes inv: "barrierInv ks s" and i: "i < length (producers s)"
    and p: "producers s ! i = FinishReturning"
  shows "barrierInv ks (s\<lparr>producers := (producers s)[i := Finished], mutex := None\<rparr>)"
proof -
  note c = cnt_step[OF i p] and l = left_step[OF i p]
  from inv have mi: "mutexInv (producers s) (mutex s)" by (simp add: barrierInv_def)
  have m: "mutexInv ((producers s)[i := Finished]) None"
    by (rule mutex_release[OF mi i]) (simp_all add: p)
  have d: "1 \<le> cnt decremented (producers s)" by (rule cnt_here[OF i p]) simp
  show ?thesis
    using inv m d unfolding barrierInv_def
    by (simp add: c l)
qed

lemma inv_FinishLocked:
  assumes inv: "barrierInv ks s" and i: "i < length (producers s)"
    and p: "producers s ! i = FinishLocked"
  shows "barrierInv ks
           (s\<lparr>producers := (producers s)[i := (if counter s - 1 = 0 then CounterZero
                                                     else FinishReturning)],
              counter := counter s - 1,
              lateFinish := (lateFinish s \<or> list_ex isUnregistered (producers s))\<rparr>)"
proof -
  note c = cnt_step[OF i p] and l = left_step[OF i p]
  from inv have mi: "mutexInv (producers s) (mutex s)" by (simp add: barrierInv_def)
  have m: "\<And>q. mutexInv ((producers s)[i := q]) (mutex s)"
    by (rule mutex_keep[OF mi i]) (simp add: p)
  have a: "1 \<le> cnt awaited (producers s)" by (rule cnt_here[OF i p]) simp
  have z: "0 \<le> cnt (\<lambda>p. p = CounterZero) (producers s)" by (rule cnt_nonneg)
  have d: "0 \<le> cnt decremented (producers s)" by (rule cnt_nonneg)
  have u: "list_ex isUnregistered (producers s) \<longleftrightarrow> cnt isUnregistered (producers s) \<noteq> 0"
    by (simp add: cnt_zero_iff)
  have ne: "ks \<noteq> []" using inv i by (auto simp: barrierInv_def)
  show ?thesis
  proof (cases "counter s - 1 = 0")
    case True
    then show ?thesis
      using inv m a z d ne unfolding barrierInv_def u
      by (simp add: c l)
  next
    case False
    then show ?thesis
      using inv m a z d ne unfolding barrierInv_def u
      by (simp add: c l)
  qed
qed

text \<open>
  Hence every step, and every run from the start, keeps it.
\<close>

lemma step_inv:
  assumes inv: "barrierInv ks s" and st: "producerStep i s = Some s'"
  shows "barrierInv ks s'"
proof -
  from st have i: "i < length (producers s)" by (rule step_cases)
  show ?thesis
  proof (cases "producers s ! i")
    case (Unregistered k)
    with st i inv_Unregistered[OF inv i Unregistered] show ?thesis
      by (simp add: producerStep_def)
  next
    case (Ready k)
    with st i have f: "mutex s = None" by (auto simp: producerStep_def split: if_splits)
    with st i Ready inv_Ready[OF inv i Ready f] show ?thesis
      by (simp add: producerStep_def)
  next
    case (CallbackLocked k)
    with st i inv_CallbackLocked[OF inv i CallbackLocked] show ?thesis
      by (simp add: producerStep_def)
  next
    case (InSinkCallback k)
    with st i inv_InSinkCallback[OF inv i InSinkCallback] show ?thesis
      by (simp add: producerStep_def)
  next
    case (CallbackReturned k)
    with st i inv_CallbackReturned[OF inv i CallbackReturned] show ?thesis
      by (simp add: producerStep_def)
  next
    case FinishLocked
    with st i inv_FinishLocked[OF inv i FinishLocked] show ?thesis
      by (simp add: producerStep_def)
  next
    case CounterZero
    with st i inv_CounterZero[OF inv i CounterZero] show ?thesis
      by (simp add: producerStep_def)
  next
    case InSinkFinish
    with st i inv_InSinkFinish[OF inv i InSinkFinish] show ?thesis
      by (simp add: producerStep_def)
  next
    case FinishReturning
    with st i inv_FinishReturning[OF inv i FinishReturning] show ?thesis
      by (simp add: producerStep_def)
  next
    case Finished
    with st i show ?thesis by (simp add: producerStep_def)
  qed
qed

lemma run_inv:
  "barrierInv ks s \<Longrightarrow> run sched s = Some s' \<Longrightarrow> barrierInv ks s'"
proof (induction sched arbitrary: s)
  case Nil
  then show ?case by simp
next
  case (Cons i sched)
  from Cons.prems(2) obtain s1 where s1: "producerStep i s = Some s1" and r: "run sched s1 = Some s'"
    by (auto split: option.splits)
  from step_inv[OF Cons.prems(1) s1] r show ?case by (rule Cons.IH)
qed

lemma left_Finished:
  "list_all (\<lambda>p. p = Finished) ps \<Longrightarrow> sum_list (map callbacksLeft ps) = 0"
  by (induction ps) auto

lemma zero_Finished:
  "list_all (\<lambda>p. p = Finished) ps \<Longrightarrow> cnt (\<lambda>p. p = CounterZero) ps = 0"
  by (induction ps) (auto simp: cnt_def)

lemma dec_Finished:
  "list_all (\<lambda>p. p = Finished) ps \<Longrightarrow> cnt decremented ps = int (length ps)"
  by (induction ps) (auto simp: cnt_def)

text \<open>
  The schedule in which both producers register first, step by step.
\<close>

lemma handOver_run:
  "run handOver (start [2, 0])
     = Some \<lparr>producers = [Finished, Finished], counter = 0, mutex = None, sinkRunning = 0,
             sinkCallbacks = 2, sinkFinishes = 1, overlap = False, lateFinish = False\<rparr>"
  by (simp add: handOver_def start_def producerStep_def)

section \<open>The claims about insertion and rotation\<close>

text \<open>
  Claim C1. When \<open>InsertRecord\<close> has its writer slot and \<open>wal.LogRecord\<close> fails,
  \<open>InsertRecord\<close> returns the assigned tx with the WAL's error wrapped as
  \<open>append to log\<close>, and no index is touched: every block's index is what it was when
  the slot was acquired and what it was before the call, a block that a rotation
  created on the way is empty, nothing is added to the WAL's entries, and the batches a
  scan reads from the memory blocks are the ones it read before the call.
\<close>

theorem InsertRecord_wal_failure:
  assumes "appender c t = Some (Inr b, t1)"
    and "walLogRecord (txClock (db t1) + 1) (name t1) r (wal t1) = (Some e, w)"
  shows "\<exists>t'. InsertRecord c r t = Some (Returns (txClock (db t1) + 1, Some (Errorf ''append to log'' e)), t')
     \<and> (\<forall>k. index (blocks t' k) = index (blocks t1 k))
     \<and> (\<forall>k<nextBlock t. index (blocks t' k) = index (blocks t k))
     \<and> (\<forall>k. nextBlock t \<le> k \<and> k < nextBlock t' \<longrightarrow> index (blocks t' k) = [])
     \<and> (allocated t \<longrightarrow> set (memoryRecords t') = set (memoryRecords t))
     \<and> (allocated t \<and> sources (db t) = [] \<longrightarrow>
          set (fst (fst (collectRowGroups c' x' t'))) = set (fst (fst (collectRowGroups c' x' t))))
     \<and> entries (wal t') = entries (wal t1)"
proof -
  let ?x = "txClock (db t1) + 1"
  let ?t' = "InsertRecord_return ?x b (t1\<lparr>db := (db t1)\<lparr>txClock := ?x\<rparr>, wal := w\<rparr>)"
  note fr = appender_frame[OF assms(1), simplified]
  note al = appender_allocated[OF assms(1), simplified]
  have i1: "\<And>k. index (blocks ?t' k) = index (blocks t1 k)"
    by (simp add: InsertRecord_return_fields)
  have nb: "nextBlock ?t' = nextBlock t1" by (simp add: InsertRecord_return_fields)
  have mr1: "memoryRecords ?t' = memoryRecords t1"
    by (rule memoryRecords_cong) (simp_all add: InsertRecord_return_fields)
  have mr: "allocated t \<longrightarrow> set (memoryRecords ?t') = set (memoryRecords t)"
    using al mr1 by simp
  have src: "sources (db ?t') = sources (db t)"
    using fr by (simp add: InsertRecord_return_def pendingWritersWg_Done_def pendingWritersWg_Add_def commit_def)
  have scan: "allocated t \<and> sources (db t) = [] \<longrightarrow>
          set (fst (fst (collectRowGroups c' x' ?t'))) = set (fst (fst (collectRowGroups c' x' t)))"
    using mr src by (auto simp: collectRowGroups_memory)
  have w: "entries (wal ?t') = entries (wal t1)"
    using assms(2)
    by (auto simp: InsertRecord_return_fields walLogRecord_def walLog_def split: if_splits list.splits)
  show ?thesis
    apply (rule exI[of _ ?t'])
    apply (intro conjI)
          apply (rule InsertRecord_wal_fail[OF assms])
    using i1 apply blast
    using i1 fr apply simp
    using i1 fr nb apply simp
    using mr apply blast
    using scan apply blast
    using w apply blast
    done
qed

theorem InsertRecord_wal_failure_witness:
  "\<exists>t'. InsertRecord liveCtx record3 (exampleTable 100 [True])
            = Some (Returns (2, Some (Errorf ''append to log'' (ExternalError ''wal''))), t')
        \<and> index (blocks t' 0) = [] \<and> set (memoryRecords t') = {}"
proof -
  let ?t = "exampleTable 100 [True]"
  let ?t1 = "pendingWritersWg_Add 0 1 ?t"
  have a: "appender liveCtx ?t = Some (Inr 0, ?t1)" by (rule exampleTable_appender)
  have w: "walLogRecord (txClock (db ?t1) + 1) (name ?t1) record3 (wal ?t1)
             = (Some (ExternalError ''wal''), \<lparr>nop = False, entries = [], faults = []\<rparr>)"
    by (simp add: walLogRecord_def walLog_def exampleTable_def pendingWritersWg_Add_def)
  have x: "txClock (db ?t1) + 1 = 2"
    by (simp add: exampleTable_def pendingWritersWg_Add_def)
  have al: "allocated ?t" by (simp add: allocated_def exampleTable_def)
  have i0: "index (blocks ?t1 0) = []"
    by (simp add: exampleTable_def pendingWritersWg_Add_def newTableBlock_def)
  have m0: "memoryRecords ?t = []"
    by (simp add: memoryRecords_def memoryBlockIds_def exampleTable_def newTableBlock_def)
  from InsertRecord_wal_failure[OF a w, where c' = liveCtx and x' = 0, unfolded x]
  obtain t' where r: "InsertRecord liveCtx record3 ?t
            = Some (Returns (2, Some (Errorf ''append to log'' (ExternalError ''wal''))), t')"
    and i: "\<forall>k. index (blocks t' k) = index (blocks ?t1 k)"
    and m: "allocated ?t \<longrightarrow> set (memoryRecords t') = set (memoryRecords ?t)"
    by blast
  from i i0 have "index (blocks t' 0) = []" by simp
  moreover from m al m0 have "set (memoryRecords t') = {}" by simp
  ultimately show ?thesis using r by blast
qed


text \<open>
  Claim C3, as amended. \<open>RotateBlock(ctx, oldBlock)\<close> returns nil and changes nothing
  when the active block is not \<open>oldBlock\<close>. When it is, the call logs the new block to
  the WAL under the next tx and returns what \<open>wal.Log\<close> returns. If logging succeeds,
  a fresh empty block with \<open>prevTx\<close> the old block's \<open>minTx\<close> becomes active, the old
  block joins \<open>pendingBlocks\<close> unchanged, its persistence task is started, and a second
  \<open>RotateBlock\<close> for the same \<open>oldBlock\<close> does nothing; if logging fails, that error
  is returned and the active block stays \<open>oldBlock\<close>. So the active block is replaced
  only if it was still \<open>oldBlock\<close>, and then exactly when logging the new block
  succeeds.
\<close>

theorem RotateBlock_compare_and_rotate:
  "(active t \<noteq> block \<longrightarrow> RotateBlock c block t = (None, t))
   \<and> (active t = Some b \<longrightarrow>
        fst (RotateBlock c (Some b) t)
          = fst (walLog (txClock (db t) + 1)
                   (NewTableBlock (name t) (ulidSupply t (ulidCount t)) (config t)) (wal t))
        \<and> wal (snd (RotateBlock c (Some b) t))
          = snd (walLog (txClock (db t) + 1)
                   (NewTableBlock (name t) (ulidSupply t (ulidCount t)) (config t)) (wal t))
        \<and> committed (db (snd (RotateBlock c (Some b) t))) = committed (db t) @ [txClock (db t) + 1])
   \<and> (active t = Some b \<and> b < nextBlock t
        \<and> fst (walLog (txClock (db t) + 1)
                 (NewTableBlock (name t) (ulidSupply t (ulidCount t)) (config t)) (wal t)) = None
        \<and> t2 = snd (RotateBlock c (Some b) t) \<longrightarrow>
        fst (RotateBlock c (Some b) t) = None
        \<and> active t2 = Some (nextBlock t) \<and> active t2 \<noteq> Some b
        \<and> set (pendingBlocks t2) = insert b (set (pendingBlocks t))
        \<and> spawned t2 = spawned t @ [b]
        \<and> prevTx (blocks t2 (nextBlock t)) = minTx (blocks t b)
        \<and> minTx (blocks t2 (nextBlock t)) = txClock (db t) + 1
        \<and> index (blocks t2 (nextBlock t)) = []
        \<and> blocks t2 b = blocks t b
        \<and> blockRotated (metrics t2) = Suc (blockRotated (metrics t))
        \<and> RotateBlock c' (Some b) t2 = (None, t2))
   \<and> (active t = Some b
        \<and> fst (walLog (txClock (db t) + 1)
                 (NewTableBlock (name t) (ulidSupply t (ulidCount t)) (config t)) (wal t)) = Some e
        \<and> t2 = snd (RotateBlock c (Some b) t) \<longrightarrow>
        fst (RotateBlock c (Some b) t) = Some e
        \<and> e = ExternalError ''wal'' \<and> active t2 = Some b \<and> blocks t2 = blocks t
        \<and> pendingBlocks t2 = pendingBlocks t \<and> spawned t2 = spawned t
        \<and> metrics t2 = metrics t)
   \<and> (active (snd (RotateBlock c block t)) \<noteq> active t \<longrightarrow>
        active t = block \<and> fst (RotateBlock c block t) = None)"
proof -
  let ?L = "walLog (txClock (db t) + 1)
              (NewTableBlock (name t) (ulidSupply t (ulidCount t)) (config t)) (wal t)"
  obtain lr lw where L: "?L = (lr, lw)" by (cases ?L)
  have p1: "active t \<noteq> block \<longrightarrow> RotateBlock c block t = (None, t)"
    by (simp add: RotateBlock_noop)
  have p2: "fst (RotateBlock c (Some b) t) = fst ?L
        \<and> wal (snd (RotateBlock c (Some b) t)) = snd ?L
        \<and> committed (db (snd (RotateBlock c (Some b) t))) = committed (db t) @ [txClock (db t) + 1]"
    if act: "active t = Some b"
    unfolding RotateBlock_result[OF act] L
    by (cases lr) (simp_all add: commit_def)
  have p3: "fst (RotateBlock c (Some b) t) = None
        \<and> active t2 = Some (nextBlock t) \<and> active t2 \<noteq> Some b
        \<and> set (pendingBlocks t2) = insert b (set (pendingBlocks t))
        \<and> spawned t2 = spawned t @ [b]
        \<and> prevTx (blocks t2 (nextBlock t)) = minTx (blocks t b)
        \<and> minTx (blocks t2 (nextBlock t)) = txClock (db t) + 1
        \<and> index (blocks t2 (nextBlock t)) = []
        \<and> blocks t2 b = blocks t b
        \<and> blockRotated (metrics t2) = Suc (blockRotated (metrics t))
        \<and> RotateBlock c' (Some b) t2 = (None, t2)"
    if act: "active t = Some b" and lt: "b < nextBlock t" and ok: "fst ?L = None"
      and t2: "t2 = snd (RotateBlock c (Some b) t)"
  proof -
    from p2[OF act] ok have r: "fst (RotateBlock c (Some b) t) = None" by simp
    with t2 have rb: "RotateBlock c (Some b) t = (None, t2)"
      by (cases "RotateBlock c (Some b) t") simp
    note f = RotateBlock_ok_fields[OF rb act]
    have ne: "active t2 \<noteq> Some b" using lt by (simp add: f(1))
    show ?thesis
      using r ne lt RotateBlock_noop[OF ne, of c']
      by (simp add: f set_insertPending newTableBlock_def)
  qed
  have p4: "fst (RotateBlock c (Some b) t) = Some e
        \<and> e = ExternalError ''wal'' \<and> active t2 = Some b \<and> blocks t2 = blocks t
        \<and> pendingBlocks t2 = pendingBlocks t \<and> spawned t2 = spawned t
        \<and> metrics t2 = metrics t"
    if act: "active t = Some b" and bad: "fst ?L = Some e"
      and t2: "t2 = snd (RotateBlock c (Some b) t)"
  proof -
    from p2[OF act] bad have r: "fst (RotateBlock c (Some b) t) = Some e" by simp
    with t2 have rb: "RotateBlock c (Some b) t = (Some e, t2)"
      by (cases "RotateBlock c (Some b) t") simp
    note f = RotateBlock_fail_fields[OF rb act]
    show ?thesis using r act by (simp add: f)
  qed
  have p5: "active (snd (RotateBlock c block t)) \<noteq> active t \<longrightarrow>
        active t = block \<and> fst (RotateBlock c block t) = None"
  proof
    assume ch: "active (snd (RotateBlock c block t)) \<noteq> active t"
    have eq: "active t = block"
    proof (rule ccontr)
      assume "active t \<noteq> block"
      from RotateBlock_noop[OF this, of c] ch show False by simp
    qed
    have "fst (RotateBlock c block t) = None"
    proof (cases block)
      case None
      with eq ch show ?thesis by (simp add: RotateBlock_def)
    next
      case (Some b)
      obtain r t2 where rb: "RotateBlock c (Some b) t = (r, t2)" by (cases "RotateBlock c (Some b) t")
      show ?thesis
      proof (cases r)
        case None
        with rb Some show ?thesis by simp
      next
        case (Some e)
        from RotateBlock_fail_fields(1)[OF rb[unfolded Some]] eq \<open>block = Some b\<close> ch rb
        show ?thesis by simp
      qed
    qed
    with eq show "active t = block \<and> fst (RotateBlock c block t) = None" by simp
  qed
  from p1 p2 p3 p4 p5 show ?thesis by blast
qed

theorem RotateBlock_compare_and_rotate_witness:
  "active (exampleTable 100 []) = Some 0 \<and> 0 < nextBlock (exampleTable 100 [])
   \<and> fst (walLog (txClock (db (exampleTable 100 [])) + 1)
         (NewTableBlock (name (exampleTable 100 []))
            (ulidSupply (exampleTable 100 []) (ulidCount (exampleTable 100 [])))
            (config (exampleTable 100 []))) (wal (exampleTable 100 []))) = None
   \<and> fst (RotateBlock liveCtx (Some 0) (exampleTable 100 [])) = None
   \<and> active (snd (RotateBlock liveCtx (Some 0) (exampleTable 100 []))) = Some 1
   \<and> RotateBlock canceledCtx (Some 0) (snd (RotateBlock liveCtx (Some 0) (exampleTable 100 [])))
       = (None, snd (RotateBlock liveCtx (Some 0) (exampleTable 100 [])))
   \<and> RotateBlock liveCtx (Some 7) (exampleTable 100 []) = (None, exampleTable 100 [])
   \<and> active (exampleTable 100 [True]) = Some 0
   \<and> fst (RotateBlock liveCtx (Some 0) (exampleTable 100 [True])) = Some (ExternalError ''wal'')
   \<and> active (snd (RotateBlock liveCtx (Some 0) (exampleTable 100 [True]))) = Some 0"
proof -
  let ?t = "exampleTable 100 []"
  let ?f = "exampleTable 100 [True]"
  have act: "active ?t = Some 0" and nb: "nextBlock ?t = 1" and lt: "0 < nextBlock ?t"
    by (simp_all add: exampleTable_def)
  have ne: "active ?t \<noteq> Some 7" by (simp add: exampleTable_def)
  have ok: "fst (walLog (txClock (db ?t) + 1)
         (NewTableBlock (name ?t) (ulidSupply ?t (ulidCount ?t)) (config ?t)) (wal ?t)) = None"
    by (simp add: walLog_def exampleTable_def)
  have actf: "active ?f = Some 0" by (simp add: exampleTable_def)
  have bad: "fst (walLog (txClock (db ?f) + 1)
         (NewTableBlock (name ?f) (ulidSupply ?f (ulidCount ?f)) (config ?f)) (wal ?f))
       = Some (ExternalError ''wal'')"
    by (simp add: walLog_def exampleTable_def)
  note good = RotateBlock_compare_and_rotate[where t = ?t and block = "Some 7" and c = liveCtx
      and b = 0 and c' = canceledCtx and e = EOF
      and ?t2.0 = "snd (RotateBlock liveCtx (Some 0) ?t)"]
  note fail = RotateBlock_compare_and_rotate[where t = ?f and block = "Some 0" and c = liveCtx
      and b = 0 and c' = canceledCtx and e = "ExternalError ''wal''"
      and ?t2.0 = "snd (RotateBlock liveCtx (Some 0) ?f)"]
  from good act lt ok ne have 1:
    "fst (RotateBlock liveCtx (Some 0) ?t) = None
     \<and> active (snd (RotateBlock liveCtx (Some 0) ?t)) = Some (nextBlock ?t)
     \<and> RotateBlock canceledCtx (Some 0) (snd (RotateBlock liveCtx (Some 0) ?t))
         = (None, snd (RotateBlock liveCtx (Some 0) ?t))
     \<and> RotateBlock liveCtx (Some 7) ?t = (None, ?t)"
    by blast
  from fail actf bad have 2:
    "fst (RotateBlock liveCtx (Some 0) ?f) = Some (ExternalError ''wal'')
     \<and> active (snd (RotateBlock liveCtx (Some 0) ?f)) = Some 0"
    by blast
  from 1 2 act lt ok actf show ?thesis unfolding nb by simp
qed

text \<open>
  The claim as stated (the active block is replaced if and only if it is still
  \<open>oldBlock\<close>) fails when the WAL refuses the new block: the active block is still
  \<open>oldBlock\<close>, and it stays.
\<close>

theorem RotateBlock_wal_failure_counterexample:
  "active (exampleTable 100 [True]) = Some 0
   \<and> fst (RotateBlock liveCtx (Some 0) (exampleTable 100 [True])) = Some (ExternalError ''wal'')
   \<and> active (snd (RotateBlock liveCtx (Some 0) (exampleTable 100 [True]))) = Some 0"
  by (simp add: RotateBlock_def exampleTable_def begin_tx_def generateULID_def
      Table_newTableBlock_def walLog_def)


text \<open>
  Claim C4. \<open>appender\<close> takes the writer slot of the active block and reads its size.
  A block it returns was read below \<open>activeMemorySize\<close>, is the active block, and
  its slot is the one \<open>ActiveWriteBlock\<close> has just taken. When the size has reached the
  threshold, the slot is released (the table is again as it was before the slot was
  taken, nothing has been written), \<open>RotateBlock\<close> is called for that block, and the
  loop goes on with the table it leaves, or returns its error. No index is written on
  the way. With a positive \<open>activeMemorySize\<close> the loop returns.
\<close>

theorem appender_below_threshold:
  "(appender c t = Some (Inr b, t') \<longrightarrow>
      Size (blocks t' b) < activeMemorySize (db t') \<and> active t' = Some b
      \<and> (\<exists>t0. ActiveWriteBlock t0 = (Inr b, t')))
   \<and> (ActiveWriteBlock t = (Inr b, t1) \<and> activeMemorySize (db t1) \<le> Size (blocks t1 b) \<longrightarrow>
        pendingWritersWg_Done b t1 = t
        \<and> appender c t =
            (case RotateBlock c (Some b) t of
               (Some e, t2) \<Rightarrow> Some (Inl (Errorf ''rotate block'' e), t2)
             | (None, t2) \<Rightarrow> appender c t2))
   \<and> (appender c t = Some (r, t') \<longrightarrow> (\<forall>k<nextBlock t. index (blocks t' k) = index (blocks t k)))
   \<and> (0 < activeMemorySize (db t) \<longrightarrow> (\<exists>y. appender c t = Some y))"
proof -
  have p1: "appender c t = Some (Inr b, t') \<longrightarrow>
      Size (blocks t' b) < activeMemorySize (db t') \<and> active t' = Some b
      \<and> (\<exists>t0. ActiveWriteBlock t0 = (Inr b, t'))"
  proof
    assume a: "appender c t = Some (Inr b, t')"
    from appender_Inr[OF a] obtain t0 where
      t0: "\<not> closing t0" "active t0 = Some b" "t' = pendingWritersWg_Add b 1 t0"
        "sizeBytes (blocks t0 b) < activeMemorySize (db t0)" by auto
    have "ActiveWriteBlock t0 = (Inr b, t')" using t0 by (simp add: ActiveWriteBlock_def)
    moreover have "Size (blocks t' b) < activeMemorySize (db t')"
      using t0 by (simp add: Size_def pendingWritersWg_Add_def)
    moreover have "active t' = Some b" using t0 by (simp add: pendingWritersWg_Add_def)
    ultimately show "Size (blocks t' b) < activeMemorySize (db t') \<and> active t' = Some b
      \<and> (\<exists>t0. ActiveWriteBlock t0 = (Inr b, t'))" by blast
  qed
  have p2: "ActiveWriteBlock t = (Inr b, t1) \<and> activeMemorySize (db t1) \<le> Size (blocks t1 b) \<longrightarrow>
        pendingWritersWg_Done b t1 = t
        \<and> appender c t =
            (case RotateBlock c (Some b) t of
               (Some e, t2) \<Rightarrow> Some (Inl (Errorf ''rotate block'' e), t2)
             | (None, t2) \<Rightarrow> appender c t2)"
  proof
    assume a: "ActiveWriteBlock t = (Inr b, t1) \<and> activeMemorySize (db t1) \<le> Size (blocks t1 b)"
    then have awb: "ActiveWriteBlock t = (Inr b, t1)"
      and big: "\<not> Size (blocks t1 b) < activeMemorySize (db t1)" by auto
    have rel: "pendingWritersWg_Done b t1 = t" by (rule release_restores[OF awb])
    have "appender c t =
            (case RotateBlock c (Some b) t of
               (Some e, t2) \<Rightarrow> Some (Inl (Errorf ''rotate block'' e), t2)
             | (None, t2) \<Rightarrow> appender c t2)"
      by (subst appender.simps) (simp only: awb prod.case sum.case big if_False rel)
    with rel show "pendingWritersWg_Done b t1 = t
        \<and> appender c t =
            (case RotateBlock c (Some b) t of
               (Some e, t2) \<Rightarrow> Some (Inl (Errorf ''rotate block'' e), t2)
             | (None, t2) \<Rightarrow> appender c t2)" by simp
  qed
  have p3: "appender c t = Some (r, t') \<longrightarrow> (\<forall>k<nextBlock t. index (blocks t' k) = index (blocks t k))"
    using appender_frame[of c t "(r, t')"] by simp
  have p4: "0 < activeMemorySize (db t) \<longrightarrow> (\<exists>y. appender c t = Some y)"
    using appender_total by blast
  from p1 p2 p3 p4 show ?thesis by blast
qed

theorem appender_below_threshold_witness:
  "\<exists>t'. appender liveCtx fullTable = Some (Inr 1, t')
     \<and> Size (blocks t' 1) < activeMemorySize (db t') \<and> active t' = Some 1
     \<and> index (blocks t' 0) = index (blocks fullTable 0)"
proof -
  from fullTable_appender[of liveCtx] obtain t' where a: "appender liveCtx fullTable = Some (Inr 1, t')"
    by blast
  have nb: "nextBlock fullTable = 1" by (simp add: fullTable_def exampleTable_def)
  from appender_below_threshold[of liveCtx fullTable 1 t' _ "Inr 1"] a nb show ?thesis
    by auto
qed


text \<open>
  Claim C5, as amended. For a zero-row batch, \<open>InsertRecord\<close> hands the batch to
  \<open>wal.LogRecord\<close> under its tx like any other batch once it has its writer slot
  (there is no zero-row check before the WAL). If logging succeeds the call returns the
  tx and no error, \<open>zeroRowsInserted\<close> is one more than before, \<open>rowsInserted\<close> is
  unchanged, no index is touched, and a WAL that is not the no-op WAL holds one more
  entry, the batch under its tx. If logging fails, that error is returned wrapped as
  \<open>append to log\<close>. If \<open>appender\<close> returns an error (the table is closing, or a
  rotation failed), the call returns tx 0 and that error wrapped as \<open>get appender\<close>; on
  a table with no active block it panics and returns nothing. In none of these three
  cases is \<open>zeroRowsInserted\<close> incremented or an index touched.
\<close>

theorem InsertRecord_zero_rows:
  assumes "numRows r = 0"
  shows "(appender c t = Some (Inr b, ta)
          \<and> walLogRecord (txClock (db ta) + 1) (name ta) r (wal ta) = (None, w) \<longrightarrow>
           (\<exists>t'. InsertRecord c r t = Some (Returns (txClock (db ta) + 1, None), t')
              \<and> zeroRowsInserted (metrics t') = zeroRowsInserted (metrics t) + 1
              \<and> rowsInserted (metrics t') = rowsInserted (metrics t)
              \<and> (\<forall>k. index (blocks t' k) = index (blocks ta k))
              \<and> (\<forall>k<nextBlock t. index (blocks t' k) = index (blocks t k))
              \<and> wal t' = w
              \<and> (\<not> nop (wal ta) \<longrightarrow>
                   entries w = entries (wal ta) @ [(txClock (db ta) + 1, RecordBatch (name t) r)])))
       \<and> (appender c t = Some (Inr b, ta)
          \<and> walLogRecord (txClock (db ta) + 1) (name ta) r (wal ta) = (Some e, w) \<longrightarrow>
           (\<exists>t'. InsertRecord c r t
                   = Some (Returns (txClock (db ta) + 1, Some (Errorf ''append to log'' e)), t')
              \<and> zeroRowsInserted (metrics t') = zeroRowsInserted (metrics t)
              \<and> (\<forall>k. index (blocks t' k) = index (blocks ta k))
              \<and> (\<forall>k<nextBlock t. index (blocks t' k) = index (blocks t k))))
       \<and> (appender c t = Some (Inl e, ta) \<longrightarrow>
            InsertRecord c r t
              = Some (if closing ta \<or> active ta \<noteq> None
                      then Returns (0, Some (Errorf ''get appender'' e))
                      else Panics ''nil pointer dereference'', ta)
            \<and> (closing ta \<longrightarrow> e = ErrTableClosing)
            \<and> (\<not> closing ta \<and> active ta \<noteq> None \<longrightarrow>
                  e = Errorf ''rotate block'' (ExternalError ''wal''))
            \<and> zeroRowsInserted (metrics ta) = zeroRowsInserted (metrics t)
            \<and> (\<forall>k<nextBlock t. index (blocks ta k) = index (blocks t k)))"
proof -
  let ?x = "txClock (db ta) + 1"
  let ?t2 = "ta\<lparr>db := (db ta)\<lparr>txClock := ?x\<rparr>, wal := w\<rparr>"
  have ok: "appender c t = Some (Inr b, ta) \<and> walLogRecord ?x (name ta) r (wal ta) = (None, w) \<longrightarrow>
           (\<exists>t'. InsertRecord c r t = Some (Returns (?x, None), t')
              \<and> zeroRowsInserted (metrics t') = zeroRowsInserted (metrics t) + 1
              \<and> rowsInserted (metrics t') = rowsInserted (metrics t)
              \<and> (\<forall>k. index (blocks t' k) = index (blocks ta k))
              \<and> (\<forall>k<nextBlock t. index (blocks t' k) = index (blocks t k))
              \<and> wal t' = w
              \<and> (\<not> nop (wal ta) \<longrightarrow> entries w = entries (wal ta) @ [(?x, RecordBatch (name t) r)]))"
  proof
    assume h: "appender c t = Some (Inr b, ta) \<and> walLogRecord ?x (name ta) r (wal ta) = (None, w)"
    then have a: "appender c t = Some (Inr b, ta)"
      and w: "walLogRecord ?x (name ta) r (wal ta) = (None, w)" by simp_all
    note fr = appender_frame[OF a, simplified]
    let ?t' = "InsertRecord_return ?x b (snd (TableBlock_InsertRecord c ?x r b ?t2))"
    have r: "InsertRecord c r t = Some (Returns (?x, None), ?t')" by (rule InsertRecord_wal_ok[OF a w])
    have tb: "snd (TableBlock_InsertRecord c ?x r b ?t2)
                = observeRows r (?t2\<lparr>metrics := (metrics ?t2)\<lparr>zeroRowsInserted := zeroRowsInserted (metrics ?t2) + 1\<rparr>\<rparr>)"
      using assms by (simp add: TableBlock_InsertRecord_def)
    have z: "zeroRowsInserted (metrics ?t') = zeroRowsInserted (metrics t) + 1"
      using fr by (simp add: InsertRecord_return_fields tb observeRows_def)
    have ri: "rowsInserted (metrics ?t') = rowsInserted (metrics t)"
      using fr assms by (simp add: InsertRecord_return_fields tb observeRows_def)
    have i1: "\<forall>k. index (blocks ?t' k) = index (blocks ta k)"
      by (simp add: InsertRecord_return_fields tb observeRows_def)
    have i0: "\<forall>k<nextBlock t. index (blocks ?t' k) = index (blocks t k)"
      using i1 fr by simp
    have wl: "wal ?t' = w"
      by (simp add: InsertRecord_return_fields tb observeRows_def)
    have en: "\<not> nop (wal ta) \<longrightarrow> entries w = entries (wal ta) @ [(?x, RecordBatch (name t) r)]"
      using walLogRecord_ok_entries[OF w] fr by simp
    from r z ri i1 i0 wl en show "\<exists>t'. InsertRecord c r t = Some (Returns (?x, None), t')
              \<and> zeroRowsInserted (metrics t') = zeroRowsInserted (metrics t) + 1
              \<and> rowsInserted (metrics t') = rowsInserted (metrics t)
              \<and> (\<forall>k. index (blocks t' k) = index (blocks ta k))
              \<and> (\<forall>k<nextBlock t. index (blocks t' k) = index (blocks t k))
              \<and> wal t' = w
              \<and> (\<not> nop (wal ta) \<longrightarrow> entries w = entries (wal ta) @ [(?x, RecordBatch (name t) r)])"
      by blast
  qed
  have bad: "appender c t = Some (Inr b, ta) \<and> walLogRecord ?x (name ta) r (wal ta) = (Some e, w) \<longrightarrow>
           (\<exists>t'. InsertRecord c r t = Some (Returns (?x, Some (Errorf ''append to log'' e)), t')
              \<and> zeroRowsInserted (metrics t') = zeroRowsInserted (metrics t)
              \<and> (\<forall>k. index (blocks t' k) = index (blocks ta k))
              \<and> (\<forall>k<nextBlock t. index (blocks t' k) = index (blocks t k)))"
  proof
    assume h: "appender c t = Some (Inr b, ta) \<and> walLogRecord ?x (name ta) r (wal ta) = (Some e, w)"
    then have a: "appender c t = Some (Inr b, ta)"
      and w: "walLogRecord ?x (name ta) r (wal ta) = (Some e, w)" by simp_all
    note fr = appender_frame[OF a, simplified]
    let ?t' = "InsertRecord_return ?x b ?t2"
    have r: "InsertRecord c r t = Some (Returns (?x, Some (Errorf ''append to log'' e)), ?t')"
      by (rule InsertRecord_wal_fail[OF a w])
    have z: "zeroRowsInserted (metrics ?t') = zeroRowsInserted (metrics t)"
      using fr by (simp add: InsertRecord_return_fields)
    have i1: "\<forall>k. index (blocks ?t' k) = index (blocks ta k)"
      by (simp add: InsertRecord_return_fields)
    have i0: "\<forall>k<nextBlock t. index (blocks ?t' k) = index (blocks t k)"
      using i1 fr by simp
    from r z i1 i0 show "\<exists>t'. InsertRecord c r t = Some (Returns (?x, Some (Errorf ''append to log'' e)), t')
              \<and> zeroRowsInserted (metrics t') = zeroRowsInserted (metrics t)
              \<and> (\<forall>k. index (blocks t' k) = index (blocks ta k))
              \<and> (\<forall>k<nextBlock t. index (blocks t' k) = index (blocks t k))" by blast
  qed
  have none: "appender c t = Some (Inl e, ta) \<longrightarrow>
            InsertRecord c r t
              = Some (if closing ta \<or> active ta \<noteq> None
                      then Returns (0, Some (Errorf ''get appender'' e))
                      else Panics ''nil pointer dereference'', ta)
            \<and> (closing ta \<longrightarrow> e = ErrTableClosing)
            \<and> (\<not> closing ta \<and> active ta \<noteq> None \<longrightarrow>
                  e = Errorf ''rotate block'' (ExternalError ''wal''))
            \<and> zeroRowsInserted (metrics ta) = zeroRowsInserted (metrics t)
            \<and> (\<forall>k<nextBlock t. index (blocks ta k) = index (blocks t k))"
  proof
    assume a: "appender c t = Some (Inl e, ta)"
    note fr = appender_frame[OF a, simplified]
    from appender_Inl[OF a] have k:
      "(e = ErrTableClosing \<and> closing ta)
       \<or> (e = Panic ''nil pointer dereference'' \<and> \<not> closing ta \<and> active ta = None)
       \<or> (e = Errorf ''rotate block'' (ExternalError ''wal'') \<and> \<not> closing ta \<and> active ta \<noteq> None)"
      by simp
    have r: "InsertRecord c r t
              = Some (if closing ta \<or> active ta \<noteq> None
                      then Returns (0, Some (Errorf ''get appender'' e))
                      else Panics ''nil pointer dereference'', ta)"
      using k a by (auto simp: InsertRecord_def)
    from r k fr show "InsertRecord c r t
              = Some (if closing ta \<or> active ta \<noteq> None
                      then Returns (0, Some (Errorf ''get appender'' e))
                      else Panics ''nil pointer dereference'', ta)
            \<and> (closing ta \<longrightarrow> e = ErrTableClosing)
            \<and> (\<not> closing ta \<and> active ta \<noteq> None \<longrightarrow>
                  e = Errorf ''rotate block'' (ExternalError ''wal''))
            \<and> zeroRowsInserted (metrics ta) = zeroRowsInserted (metrics t)
            \<and> (\<forall>k<nextBlock t. index (blocks ta k) = index (blocks t k))"
      by auto
  qed
  from ok bad none show ?thesis by blast
qed

theorem InsertRecord_zero_rows_witness:
  "numRows emptyRecord = 0
   \<and> (\<exists>t'. InsertRecord liveCtx emptyRecord (exampleTable 100 []) = Some (Returns (2, None), t')
         \<and> zeroRowsInserted (metrics t') = 1 \<and> index (blocks t' 0) = []
         \<and> entries (wal t') = [(2, RecordBatch ''t'' emptyRecord)])
   \<and> (\<exists>t'. InsertRecord liveCtx emptyRecord (exampleTable 100 [True])
               = Some (Returns (2, Some (Errorf ''append to log'' (ExternalError ''wal''))), t')
         \<and> zeroRowsInserted (metrics t') = 0)
   \<and> InsertRecord liveCtx emptyRecord closingTable
       = Some (Returns (0, Some (Errorf ''get appender'' ErrTableClosing)), closingTable)
   \<and> InsertRecord liveCtx emptyRecord readOnlyTable
       = Some (Panics ''nil pointer dereference'', readOnlyTable)
   \<and> zeroRowsInserted (metrics closingTable) = 0 \<and> zeroRowsInserted (metrics readOnlyTable) = 0"
proof -
  let ?t = "exampleTable 100 []"
  let ?ta = "pendingWritersWg_Add 0 1 ?t"
  let ?w = "\<lparr>nop = False, entries = [(2, RecordBatch ''t'' emptyRecord)], faults = []\<rparr>"
  let ?f = "exampleTable 100 [True]"
  let ?f1 = "pendingWritersWg_Add 0 1 ?f"
  let ?wf = "\<lparr>nop = False, entries = [], faults = []\<rparr>"
  have n: "numRows emptyRecord = 0" by (simp add: emptyRecord_def)
  have a: "appender liveCtx ?t = Some (Inr 0, ?ta)" by (rule exampleTable_appender)
  have x: "txClock (db ?ta) + 1 = 2"
    by (simp add: exampleTable_def pendingWritersWg_Add_def)
  have w: "walLogRecord (txClock (db ?ta) + 1) (name ?ta) emptyRecord (wal ?ta) = (None, ?w)"
    by (simp add: walLogRecord_def walLog_def exampleTable_def pendingWritersWg_Add_def)
  have z0: "zeroRowsInserted (metrics ?t) = 0" and i0: "index (blocks ?ta 0) = []"
    by (simp_all add: exampleTable_def pendingWritersWg_Add_def newTableBlock_def)
  from InsertRecord_zero_rows[OF n, where c = liveCtx and t = ?t and b = 0 and ta = ?ta
      and w = ?w and e = EOF] a w
  obtain t' where r: "InsertRecord liveCtx emptyRecord ?t = Some (Returns (txClock (db ?ta) + 1, None), t')"
    and z: "zeroRowsInserted (metrics t') = zeroRowsInserted (metrics ?t) + 1"
    and i: "\<forall>k. index (blocks t' k) = index (blocks ?ta k)"
    and wl: "wal t' = ?w"
    by blast
  from r z i wl have 1: "\<exists>t'. InsertRecord liveCtx emptyRecord ?t = Some (Returns (2, None), t')
         \<and> zeroRowsInserted (metrics t') = 1 \<and> index (blocks t' 0) = []
         \<and> entries (wal t') = [(2, RecordBatch ''t'' emptyRecord)]"
    unfolding x z0 using i0 by auto
  have af: "appender liveCtx ?f = Some (Inr 0, ?f1)" by (rule exampleTable_appender)
  have xf: "txClock (db ?f1) + 1 = 2"
    by (simp add: exampleTable_def pendingWritersWg_Add_def)
  have wf: "walLogRecord (txClock (db ?f1) + 1) (name ?f1) emptyRecord (wal ?f1)
              = (Some (ExternalError ''wal''), ?wf)"
    by (simp add: walLogRecord_def walLog_def exampleTable_def pendingWritersWg_Add_def)
  have zf: "zeroRowsInserted (metrics ?f) = 0" by (simp add: exampleTable_def)
  from InsertRecord_zero_rows[OF n, where c = liveCtx and t = ?f and b = 0 and ta = ?f1
      and w = ?wf and e = "ExternalError ''wal''"] af wf
  obtain t' where "InsertRecord liveCtx emptyRecord ?f
        = Some (Returns (txClock (db ?f1) + 1, Some (Errorf ''append to log'' (ExternalError ''wal''))), t')"
    and "zeroRowsInserted (metrics t') = zeroRowsInserted (metrics ?f)"
    by blast
  then have 2: "\<exists>t'. InsertRecord liveCtx emptyRecord ?f
               = Some (Returns (2, Some (Errorf ''append to log'' (ExternalError ''wal''))), t')
         \<and> zeroRowsInserted (metrics t') = 0"
    unfolding xf zf by blast
  have ac: "appender liveCtx closingTable = Some (Inl ErrTableClosing, closingTable)"
    by (subst appender_unfold) (simp add: closingTable_def)
  have cl: "closing closingTable" by (simp add: closingTable_def)
  from InsertRecord_zero_rows[OF n, where c = liveCtx and t = closingTable and ta = closingTable
      and e = ErrTableClosing] ac cl
  have 3: "InsertRecord liveCtx emptyRecord closingTable
       = Some (Returns (0, Some (Errorf ''get appender'' ErrTableClosing)), closingTable)"
    by simp
  have ar: "appender liveCtx readOnlyTable
              = Some (Inl (Panic ''nil pointer dereference''), readOnlyTable)"
    by (subst appender_unfold) (simp add: readOnlyTable_def exampleTable_def)
  have ro: "\<not> closing readOnlyTable" "active readOnlyTable = None"
    by (simp_all add: readOnlyTable_def exampleTable_def)
  from InsertRecord_zero_rows[OF n, where c = liveCtx and t = readOnlyTable and ta = readOnlyTable
      and e = "Panic ''nil pointer dereference''"] ar ro
  have 4: "InsertRecord liveCtx emptyRecord readOnlyTable
       = Some (Panics ''nil pointer dereference'', readOnlyTable)"
    by simp
  have 5: "zeroRowsInserted (metrics closingTable) = 0" "zeroRowsInserted (metrics readOnlyTable) = 0"
    by (simp_all add: closingTable_def readOnlyTable_def exampleTable_def)
  from n 1 2 3 4 5 show ?thesis by blast
qed

text \<open>
  The claim as stated fails twice: the zero-row batch is logged to the WAL as a record
  batch, and on a closing table the insert is not accepted.
\<close>

theorem InsertRecord_zero_rows_counterexample:
  "numRows emptyRecord = 0
   \<and> map_option (\<lambda>(y, t'). (y, entries (wal t')))
        (InsertRecord liveCtx emptyRecord (exampleTable 100 []))
      = Some (Returns (2, None), [(2, RecordBatch ''t'' emptyRecord)])
   \<and> entries (wal (exampleTable 100 [])) = []
   \<and> InsertRecord liveCtx emptyRecord ((exampleTable 100 [])\<lparr>closing := True\<rparr>)
      = Some (Returns (0, Some (Errorf ''get appender'' ErrTableClosing)), (exampleTable 100 [])\<lparr>closing := True\<rparr>)"
proof -
  let ?t = "exampleTable 100 []"
  let ?ta = "pendingWritersWg_Add 0 1 ?t"
  let ?w = "\<lparr>nop = False, entries = [(2, RecordBatch ''t'' emptyRecord)], faults = []\<rparr>"
  have a: "appender liveCtx ?t = Some (Inr 0, ?ta)" by (rule exampleTable_appender)
  have w: "walLogRecord (txClock (db ?ta) + 1) (name ?ta) emptyRecord (wal ?ta) = (None, ?w)"
    by (simp add: walLogRecord_def walLog_def exampleTable_def pendingWritersWg_Add_def)
  have c: "appender liveCtx (?t\<lparr>closing := True\<rparr>) = Some (Inl ErrTableClosing, ?t\<lparr>closing := True\<rparr>)"
    by (subst appender_unfold) simp
  show ?thesis
    unfolding InsertRecord_wal_ok[OF a w] InsertRecord_Inl[OF c, simplified]
    by (simp add: InsertRecord_return_fields TableBlock_InsertRecord_def emptyRecord_def
        observeRows_def exampleTable_def pendingWritersWg_Add_def)
qed

text \<open>
  Claim C7, as amended. \<open>InsertRecord\<close> does not check its context anywhere on its
  path: \<open>appender\<close>, \<open>RotateBlock\<close> and \<open>TableBlock.InsertRecord\<close> receive it and
  never look at it, and \<open>ActiveWriteBlock\<close>, \<open>db.begin\<close> and \<open>wal.LogRecord\<close> do not
  receive it. So a call with a context that is already canceled does what a call with
  any other context does and leaves the same table, and no return of \<open>InsertRecord\<close>
  carries a cancellation error. In particular, on a table that is not closing and whose
  active block is below \<open>activeMemorySize\<close>, a call with a canceled context takes the
  writer slot of the active block and hands the batch to \<open>wal.LogRecord\<close> under the
  next tx; when the WAL accepts it, the batch is in the WAL and (if it has rows) at the
  end of the block's index, the tx is committed, the slot is released, and the call
  returns the tx with no error; when the WAL refuses it, the WAL's error is returned
  with the tx.
\<close>

theorem InsertRecord_ignores_ctx:
  "InsertRecord c r t = InsertRecord c' r t
   \<and> appender c t = appender c' t
   \<and> (InsertRecord c r t = Some (Returns (x, Some e), t') \<longrightarrow> \<not> isCanceled e)
   \<and> (canceled c \<and> \<not> closing t \<and> active t = Some b
        \<and> Size (blocks t b) < activeMemorySize (db t) \<longrightarrow>
        appender c t = Some (Inr b, pendingWritersWg_Add b 1 t)
        \<and> pendingWritersWg (blocks (pendingWritersWg_Add b 1 t) b) = pendingWritersWg (blocks t b) + 1
        \<and> (walLogRecord (txClock (db t) + 1) (name t) r (wal t) = (None, w) \<longrightarrow>
             (\<exists>tb. InsertRecord c r t = Some (Returns (txClock (db t) + 1, None), tb)
                \<and> wal tb = w
                \<and> (\<not> nop (wal t) \<longrightarrow>
                      entries w = entries (wal t) @ [(txClock (db t) + 1, RecordBatch (name t) r)])
                \<and> index (blocks tb b)
                    = (if numRows r = 0 then index (blocks t b)
                       else index (blocks t b) @ [(txClock (db t) + 1, r)])
                \<and> pendingWritersWg (blocks tb b) = pendingWritersWg (blocks t b)
                \<and> committed (db tb) = committed (db t) @ [txClock (db t) + 1]))
        \<and> (walLogRecord (txClock (db t) + 1) (name t) r (wal t) = (Some e, w) \<longrightarrow>
             (\<exists>tb. InsertRecord c r t
                     = Some (Returns (txClock (db t) + 1, Some (Errorf ''append to log'' e)), tb)
                \<and> wal tb = w \<and> index (blocks tb b) = index (blocks t b)
                \<and> pendingWritersWg (blocks tb b) = pendingWritersWg (blocks t b))))"
proof -
  have p1: "InsertRecord c r t = InsertRecord c' r t"
    unfolding InsertRecord_def TableBlock_InsertRecord_def appender_ctx[of c t c'] by simp
  have p2: "appender c t = appender c' t" by (rule appender_ctx)
  have p3: "InsertRecord c r t = Some (Returns (x, Some e), t') \<longrightarrow> \<not> isCanceled e"
    using InsertRecord_no_cancellation by blast
  have p4: "appender c t = Some (Inr b, pendingWritersWg_Add b 1 t)
        \<and> pendingWritersWg (blocks (pendingWritersWg_Add b 1 t) b) = pendingWritersWg (blocks t b) + 1
        \<and> (walLogRecord (txClock (db t) + 1) (name t) r (wal t) = (None, w) \<longrightarrow>
             (\<exists>tb. InsertRecord c r t = Some (Returns (txClock (db t) + 1, None), tb)
                \<and> wal tb = w
                \<and> (\<not> nop (wal t) \<longrightarrow>
                      entries w = entries (wal t) @ [(txClock (db t) + 1, RecordBatch (name t) r)])
                \<and> index (blocks tb b)
                    = (if numRows r = 0 then index (blocks t b)
                       else index (blocks t b) @ [(txClock (db t) + 1, r)])
                \<and> pendingWritersWg (blocks tb b) = pendingWritersWg (blocks t b)
                \<and> committed (db tb) = committed (db t) @ [txClock (db t) + 1]))
        \<and> (walLogRecord (txClock (db t) + 1) (name t) r (wal t) = (Some e, w) \<longrightarrow>
             (\<exists>tb. InsertRecord c r t
                     = Some (Returns (txClock (db t) + 1, Some (Errorf ''append to log'' e)), tb)
                \<and> wal tb = w \<and> index (blocks tb b) = index (blocks t b)
                \<and> pendingWritersWg (blocks tb b) = pendingWritersWg (blocks t b)))"
    if h: "\<not> closing t" "active t = Some b" "Size (blocks t b) < activeMemorySize (db t)"
  proof -
    let ?ta = "pendingWritersWg_Add b 1 t"
    let ?x = "txClock (db t) + 1"
    have a: "appender c t = Some (Inr b, ?ta)" by (rule appender_slot[OF h])
    have f: "txClock (db ?ta) = txClock (db t)" "name ?ta = name t" "wal ?ta = wal t"
      by (simp_all add: pendingWritersWg_Add_def)
    have s: "pendingWritersWg (blocks ?ta b) = pendingWritersWg (blocks t b) + 1"
      by (simp add: pendingWritersWg_Add_def)
    have ok: "\<exists>tb. InsertRecord c r t = Some (Returns (?x, None), tb)
                \<and> wal tb = w
                \<and> (\<not> nop (wal t) \<longrightarrow> entries w = entries (wal t) @ [(?x, RecordBatch (name t) r)])
                \<and> index (blocks tb b)
                    = (if numRows r = 0 then index (blocks t b) else index (blocks t b) @ [(?x, r)])
                \<and> pendingWritersWg (blocks tb b) = pendingWritersWg (blocks t b)
                \<and> committed (db tb) = committed (db t) @ [?x]"
      if w: "walLogRecord ?x (name t) r (wal t) = (None, w)"
    proof -
      from w have w': "walLogRecord (txClock (db ?ta) + 1) (name ?ta) r (wal ?ta) = (None, w)"
        by (simp add: f)
      show ?thesis
        unfolding InsertRecord_wal_ok[OF a w'] f
        using walLogRecord_ok_entries[OF w]
        by (simp add: InsertRecord_return_def TableBlock_InsertRecord_def observeRows_def
            LSM_Add_def pendingWritersWg_Done_def pendingWritersWg_Add_def commit_def)
    qed
    have bad: "\<exists>tb. InsertRecord c r t = Some (Returns (?x, Some (Errorf ''append to log'' e)), tb)
                \<and> wal tb = w \<and> index (blocks tb b) = index (blocks t b)
                \<and> pendingWritersWg (blocks tb b) = pendingWritersWg (blocks t b)"
      if w: "walLogRecord ?x (name t) r (wal t) = (Some e, w)"
    proof -
      from w have w': "walLogRecord (txClock (db ?ta) + 1) (name ?ta) r (wal ?ta) = (Some e, w)"
        by (simp add: f)
      show ?thesis
        unfolding InsertRecord_wal_fail[OF a w'] f
        by (simp add: InsertRecord_return_def pendingWritersWg_Done_def pendingWritersWg_Add_def
            commit_def)
    qed
    from a s ok bad show ?thesis by blast
  qed
  from p1 p2 p3 p4 show ?thesis by blast
qed

theorem InsertRecord_ignores_ctx_witness:
  "canceled canceledCtx \<and> \<not> closing (exampleTable 100 []) \<and> active (exampleTable 100 []) = Some 0
   \<and> Size (blocks (exampleTable 100 []) 0) < activeMemorySize (db (exampleTable 100 []))
   \<and> InsertRecord canceledCtx record3 (exampleTable 100 [])
       = InsertRecord liveCtx record3 (exampleTable 100 [])
   \<and> (\<exists>tb. InsertRecord canceledCtx record3 (exampleTable 100 []) = Some (Returns (2, None), tb)
         \<and> entries (wal tb) = [(2, RecordBatch ''t'' record3)]
         \<and> index (blocks tb 0) = [(2, record3)]
         \<and> committed (db tb) = [1, 2])"
proof -
  let ?t = "exampleTable 100 []"
  let ?w = "\<lparr>nop = False, entries = [(2, RecordBatch ''t'' record3)], faults = []\<rparr>"
  have c: "canceled canceledCtx" by (simp add: canceledCtx_def)
  have h: "\<not> closing ?t" "active ?t = Some 0" "Size (blocks ?t 0) < activeMemorySize (db ?t)"
    by (simp_all add: exampleTable_def Size_def newTableBlock_def)
  have x: "txClock (db ?t) + 1 = 2" by (simp add: exampleTable_def)
  have w: "walLogRecord (txClock (db ?t) + 1) (name ?t) record3 (wal ?t) = (None, ?w)"
    by (simp add: walLogRecord_def walLog_def exampleTable_def)
  have v: "\<not> nop (wal ?t)" "entries (wal ?t) = []" "name ?t = ''t''" "index (blocks ?t 0) = []"
    "committed (db ?t) = [1]" "numRows record3 \<noteq> 0"
    by (simp_all add: exampleTable_def newTableBlock_def record3_def)
  note inst = InsertRecord_ignores_ctx[where c = canceledCtx and r = record3 and t = ?t
      and c' = liveCtx and b = 0 and w = ?w and e = EOF and x = 0 and t' = ?t]
  from inst have 1: "InsertRecord canceledCtx record3 ?t = InsertRecord liveCtx record3 ?t"
    by blast
  from inst c h w obtain tb where
    r: "InsertRecord canceledCtx record3 ?t = Some (Returns (txClock (db ?t) + 1, None), tb)"
    and wl: "wal tb = ?w"
    and ix: "index (blocks tb 0)
        = (if numRows record3 = 0 then index (blocks ?t 0)
           else index (blocks ?t 0) @ [(txClock (db ?t) + 1, record3)])"
    and cm: "committed (db tb) = committed (db ?t) @ [txClock (db ?t) + 1]"
    by blast
  from r wl ix cm have 2: "\<exists>tb. InsertRecord canceledCtx record3 ?t = Some (Returns (2, None), tb)
         \<and> entries (wal tb) = [(2, RecordBatch ''t'' record3)]
         \<and> index (blocks tb 0) = [(2, record3)]
         \<and> committed (db tb) = [1, 2]"
    unfolding x using v by auto
  from c h 1 2 show ?thesis by blast
qed

text \<open>
  The claim as stated fails: with a context that is canceled before the call, the
  writer slot of the active block is taken, the batch is appended to the WAL and added
  to the index, and the call returns its tx and no error.
\<close>

theorem InsertRecord_canceled_counterexample:
  "canceled canceledCtx
   \<and> map_option (\<lambda>(y, t'). (y, pendingWritersWg (blocks t' 0)))
        (appender canceledCtx (exampleTable 100 [])) = Some (Inr 0, 1)
   \<and> map_option (\<lambda>(y, t'). (y, entries (wal t'), index (blocks t' 0)))
        (InsertRecord canceledCtx record3 (exampleTable 100 []))
      = Some (Returns (2, None), [(2, RecordBatch ''t'' record3)], [(2, record3)])"
proof -
  let ?t = "exampleTable 100 []"
  let ?t1 = "pendingWritersWg_Add 0 1 ?t"
  have a: "appender canceledCtx ?t = Some (Inr 0, ?t1)" by (rule exampleTable_appender)
  have w: "walLogRecord (txClock (db ?t1) + 1) (name ?t1) record3 (wal ?t1)
             = (None, \<lparr>nop = False, entries = [(2, RecordBatch ''t'' record3)], faults = []\<rparr>)"
    by (simp add: walLogRecord_def walLog_def exampleTable_def pendingWritersWg_Add_def)
  have c: "canceled canceledCtx" by (simp add: canceledCtx_def)
  have p: "pendingWritersWg (blocks ?t1 0) = 1"
    by (simp add: exampleTable_def pendingWritersWg_Add_def newTableBlock_def)
  show ?thesis
    unfolding InsertRecord_wal_ok[OF a w] a
    using c p
    by (simp add: InsertRecord_return_fields TableBlock_InsertRecord_def record3_def
        observeRows_def LSM_Add_def exampleTable_def pendingWritersWg_Add_def newTableBlock_def)
qed

text \<open>
  Claim C9. When \<open>appender\<close> returns a block (the writer slot is acquired),
  \<open>InsertRecord\<close> returns the tx that \<open>db.begin()\<close> assigned, with the error of
  \<open>wal.LogRecord\<close> wrapped as \<open>append to log\<close> if that failed and with no error
  otherwise (\<open>TableBlock.InsertRecord\<close> never returns an error), and the clock stands
  at that tx. When \<open>appender\<close> returns an error, \<open>InsertRecord\<close> returns tx 0 and the
  error wrapped as \<open>get appender\<close>; when \<open>appender\<close> panics (no active block),
  \<open>InsertRecord\<close> panics and returns no tx at all. So a returned tx of 0, with the clock
  not at 0, means that no writer slot was acquired.
\<close>

theorem InsertRecord_returns_assigned_tx:
  "(appender c t = Some (Inr b, ta) \<longrightarrow>
        (\<exists>res t'. InsertRecord c r t = Some (Returns (fst (begin_tx (db ta)), res), t')
           \<and> txClock (db t') = fst (begin_tx (db ta))
           \<and> (case walLogRecord (fst (begin_tx (db ta))) (name ta) r (wal ta) of
                 (Some e', w) \<Rightarrow> res = Some (Errorf ''append to log'' e')
               | (None, w) \<Rightarrow> res = None)))
   \<and> (appender c t = Some (Inl e, ta) \<and> (\<forall>m. e \<noteq> Panic m) \<longrightarrow>
        InsertRecord c r t = Some (Returns (0, Some (Errorf ''get appender'' e)), ta))
   \<and> (appender c t = Some (Inl (Panic m), ta) \<longrightarrow> InsertRecord c r t = Some (Panics m, ta))
   \<and> (InsertRecord c r t = Some (Returns (0, res), t') \<and> txClock (db t') \<noteq> 0 \<longrightarrow>
        (\<exists>e ta. appender c t = Some (Inl e, ta) \<and> res = Some (Errorf ''get appender'' e)))
   \<and> (InsertRecord c r t = Some (Returns (x, res), t') \<and> x \<noteq> 0 \<longrightarrow>
        (\<exists>b ta. appender c t = Some (Inr b, ta) \<and> x = fst (begin_tx (db ta))))"
proof -
  have p1: "appender c t = Some (Inl e, ta) \<and> (\<forall>m. e \<noteq> Panic m) \<longrightarrow>
      InsertRecord c r t = Some (Returns (0, Some (Errorf ''get appender'' e)), ta)"
    by (simp add: InsertRecord_Inl)
  have p1': "appender c t = Some (Inl (Panic m), ta) \<longrightarrow> InsertRecord c r t = Some (Panics m, ta)"
    by (simp add: InsertRecord_Panic)
  have p2: "\<And>b ta. appender c t = Some (Inr b, ta) \<Longrightarrow>
        (\<exists>res t'. InsertRecord c r t = Some (Returns (fst (begin_tx (db ta)), res), t')
           \<and> txClock (db t') = fst (begin_tx (db ta))
           \<and> (case walLogRecord (fst (begin_tx (db ta))) (name ta) r (wal ta) of
                 (Some e', w) \<Rightarrow> res = Some (Errorf ''append to log'' e')
               | (None, w) \<Rightarrow> res = None))"
  proof -
    fix b ta assume a: "appender c t = Some (Inr b, ta)"
    have x: "fst (begin_tx (db ta)) = txClock (db ta) + 1" by (simp add: begin_tx_def)
    obtain eo w where w: "walLogRecord (txClock (db ta) + 1) (name ta) r (wal ta) = (eo, w)"
      by (cases "walLogRecord (txClock (db ta) + 1) (name ta) r (wal ta)")
    show "\<exists>res t'. InsertRecord c r t = Some (Returns (fst (begin_tx (db ta)), res), t')
           \<and> txClock (db t') = fst (begin_tx (db ta))
           \<and> (case walLogRecord (fst (begin_tx (db ta))) (name ta) r (wal ta) of
                 (Some e', w) \<Rightarrow> res = Some (Errorf ''append to log'' e')
               | (None, w) \<Rightarrow> res = None)"
    proof (cases eo)
      case None
      show ?thesis unfolding x InsertRecord_wal_ok[OF a w[unfolded None]] w None
        by (simp add: InsertRecord_return_fields TableBlock_InsertRecord_def observeRows_def)
    next
      case (Some e')
      show ?thesis unfolding x InsertRecord_wal_fail[OF a w[unfolded Some]] w Some
        by (simp add: InsertRecord_return_fields)
    qed
  qed
  have split: "(\<exists>e ta. appender c t = Some (Inl e, ta) \<and> x = 0 \<and> res = Some (Errorf ''get appender'' e))
      \<or> (\<exists>b ta. appender c t = Some (Inr b, ta) \<and> x = fst (begin_tx (db ta))
            \<and> txClock (db t') = fst (begin_tx (db ta)))"
    if h: "InsertRecord c r t = Some (Returns (x, res), t')" for x res t'
  proof -
    from h obtain y where y: "appender c t = Some y" by (auto simp: InsertRecord_def split: option.splits)
    obtain s ta where yt: "y = (s, ta)" by (cases y)
    show ?thesis
    proof (cases s)
      case (Inl e)
      with y yt h show ?thesis by (cases e) (auto simp: InsertRecord_def)
    next
      case (Inr b)
      from p2[OF y[unfolded yt Inr]] h y yt Inr show ?thesis by auto
    qed
  qed
  have p3: "InsertRecord c r t = Some (Returns (0, res), t') \<and> txClock (db t') \<noteq> 0 \<longrightarrow>
        (\<exists>e ta. appender c t = Some (Inl e, ta) \<and> res = Some (Errorf ''get appender'' e))"
  proof
    assume h: "InsertRecord c r t = Some (Returns (0, res), t') \<and> txClock (db t') \<noteq> 0"
    with split[of 0 res t'] show "\<exists>e ta. appender c t = Some (Inl e, ta) \<and> res = Some (Errorf ''get appender'' e)"
      by auto
  qed
  have p4: "InsertRecord c r t = Some (Returns (x, res), t') \<and> x \<noteq> 0 \<longrightarrow>
        (\<exists>b ta. appender c t = Some (Inr b, ta) \<and> x = fst (begin_tx (db ta)))"
  proof
    assume h: "InsertRecord c r t = Some (Returns (x, res), t') \<and> x \<noteq> 0"
    with split[of x res t'] show "\<exists>b ta. appender c t = Some (Inr b, ta) \<and> x = fst (begin_tx (db ta))"
      by auto
  qed
  from p1 p1' p2 p3 p4 show ?thesis by blast
qed

theorem InsertRecord_returns_assigned_tx_witness:
  "fst (begin_tx (db (pendingWritersWg_Add 0 1 (exampleTable 100 [True])))) = 2
   \<and> (\<exists>res t'. InsertRecord liveCtx record3 (exampleTable 100 [True]) = Some (Returns (2, res), t')
         \<and> res = Some (Errorf ''append to log'' (ExternalError ''wal'')))
   \<and> InsertRecord liveCtx record3 closingTable
      = Some (Returns (0, Some (Errorf ''get appender'' ErrTableClosing)), closingTable)
   \<and> InsertRecord liveCtx record3 readOnlyTable
      = Some (Panics ''nil pointer dereference'', readOnlyTable)
   \<and> txClock (db closingTable) \<noteq> 0
   \<and> appender liveCtx closingTable = Some (Inl ErrTableClosing, closingTable)"
proof -
  let ?t = "exampleTable 100 [True]"
  let ?t1 = "pendingWritersWg_Add 0 1 ?t"
  have a: "appender liveCtx ?t = Some (Inr 0, ?t1)" by (rule exampleTable_appender)
  have x: "fst (begin_tx (db ?t1)) = 2"
    by (simp add: begin_tx_def exampleTable_def pendingWritersWg_Add_def)
  have w: "walLogRecord 2 (name ?t1) record3 (wal ?t1)
             = (Some (ExternalError ''wal''), \<lparr>nop = False, entries = [], faults = []\<rparr>)"
    by (simp add: walLogRecord_def walLog_def exampleTable_def pendingWritersWg_Add_def)
  have c: "appender liveCtx closingTable = Some (Inl ErrTableClosing, closingTable)"
    by (subst appender_unfold) (simp add: closingTable_def)
  have ro: "appender liveCtx readOnlyTable
              = Some (Inl (Panic ''nil pointer dereference''), readOnlyTable)"
    by (subst appender_unfold) (simp add: readOnlyTable_def exampleTable_def)
  have k: "txClock (db closingTable) \<noteq> 0" by (simp add: closingTable_def exampleTable_def)
  from InsertRecord_returns_assigned_tx[where c = liveCtx and t = ?t and r = record3 and b = 0
      and ta = ?t1, THEN conjunct1, rule_format, OF a]
  obtain res t' where r: "InsertRecord liveCtx record3 ?t = Some (Returns (fst (begin_tx (db ?t1)), res), t')"
    and rs: "(case walLogRecord (fst (begin_tx (db ?t1))) (name ?t1) record3 (wal ?t1) of
                 (Some e', w) \<Rightarrow> res = Some (Errorf ''append to log'' e')
               | (None, w) \<Rightarrow> res = None)" by (elim exE conjE) (rule that)
  from rs have "res = Some (Errorf ''append to log'' (ExternalError ''wal''))"
    unfolding x w by simp
  with r have 1: "\<exists>res t'. InsertRecord liveCtx record3 ?t = Some (Returns (2, res), t')
         \<and> res = Some (Errorf ''append to log'' (ExternalError ''wal''))"
    unfolding x by blast
  have np: "\<forall>m. ErrTableClosing \<noteq> Panic m" by simp
  from InsertRecord_returns_assigned_tx[where c = liveCtx and t = closingTable and r = record3
      and e = ErrTableClosing and ta = closingTable, THEN conjunct2, THEN conjunct1] c np
  have 2: "InsertRecord liveCtx record3 closingTable
      = Some (Returns (0, Some (Errorf ''get appender'' ErrTableClosing)), closingTable)" by blast
  from InsertRecord_returns_assigned_tx[where c = liveCtx and t = readOnlyTable and r = record3
      and m = "''nil pointer dereference''" and ta = readOnlyTable,
      THEN conjunct2, THEN conjunct2, THEN conjunct1] ro
  have 3: "InsertRecord liveCtx record3 readOnlyTable
      = Some (Panics ''nil pointer dereference'', readOnlyTable)" by blast
  from x 1 2 3 k c show ?thesis by blast
qed

section \<open>The claim about the row writer\<close>

text \<open>
  Claim C10, as amended. A call of \<open>writeRows\<close> leaves \<open>maxNumRows\<close> and
  \<open>rowGroupSize\<close> as they are. With \<open>maxNumRows \<noteq> 0\<close> the call writes only within the
  limit: either it writes nothing, or \<open>totalRowsWritten\<close> ends at most at \<open>maxNumRows\<close>;
  so a total within the limit before the call, as that of a fresh writer with a positive
  limit, is within it after. With \<open>rowGroupSize > 0\<close> and row groups within
  \<open>rowGroupSize\<close> before the call, they are within it after, and every row group the
  call has flushed holds exactly \<open>rowGroupSize\<close> rows; after a call without error that
  started below \<open>rowGroupSize\<close> the counter is below it again, the call has flushed once
  for each time the counter reached \<open>rowGroupSize\<close> (the rows counted before plus the
  rows written, divided by \<open>rowGroupSize\<close>), and the counter is the remainder. Without
  a \<open>rowGroupSize\<close> nothing is flushed. A call without error returns the number of rows
  it wrote; these are the next rows of the reader, handed to the Parquet writer in
  order, and the reader keeps the rest. A call that nothing hinders writes all the
  reader holds, or what is left of the limit if that is less. A call on a writer whose
  counter is not above \<open>rowGroupSize\<close> does not panic. A writer that
  \<open>rowWriter\<close> has just made from an empty Parquet writer has both counters at zero,
  its row groups within \<open>rowGroupSize\<close>, and is not hindered if its Parquet writer and
  the reader are not.
\<close>

theorem writeRows_limits:
  "(writeRows p rows = (res, p', rows') \<longrightarrow>
      maxNumRows p' = maxNumRows p \<and> rowGroupSize p' = rowGroupSize p
      \<and> (maxNumRows p \<noteq> 0 \<longrightarrow>
            (totalRowsWritten p' = totalRowsWritten p \<or> totalRowsWritten p' \<le> maxNumRows p)
            \<and> (totalRowsWritten p \<le> maxNumRows p \<longrightarrow> totalRowsWritten p' \<le> maxNumRows p))
      \<and> (0 < rowGroupSize p \<and> rowGroupInv p \<longrightarrow>
            rowGroupInv p'
            \<and> (\<exists>gs. rowGroups (writer p') = rowGroups (writer p) @ gs
                  \<and> list_all (\<lambda>g. int (length g) = rowGroupSize p) gs)
            \<and> (snd res = None \<and> rowGroupRowsWritten p < rowGroupSize p \<longrightarrow>
                  rowGroupRowsWritten p' < rowGroupSize p
                  \<and> int (length (rowGroups (writer p')))
                      = int (length (rowGroups (writer p)))
                        + (rowGroupRowsWritten p + fst res) div rowGroupSize p
                  \<and> rowGroupRowsWritten p' = (rowGroupRowsWritten p + fst res) mod rowGroupSize p))
      \<and> (rowGroupSize p \<le> 0 \<longrightarrow> rowGroups (writer p') = rowGroups (writer p))
      \<and> (snd res = None \<longrightarrow>
            0 \<le> fst res \<and> fst res = totalRowsWritten p' - totalRowsWritten p
            \<and> writtenRows (writer p') = writtenRows (writer p) @ take (nat (fst res)) (allRows rows)
            \<and> allRows rows' = drop (nat (fst res)) (allRows rows))
      \<and> (unhindered p rows \<longrightarrow> res = (rowsAllowed p rows, None))
      \<and> (rowGroupSize p \<le> 0 \<or> rowGroupRowsWritten p \<le> rowGroupSize p \<longrightarrow>
            (\<forall>m. snd res \<noteq> Some (Panic m))))
   \<and> (rowWriter t (Inr pw) (map withMaxRows ms) = Inr q \<and> rowGroups pw = [] \<and> buffered pw = [] \<longrightarrow>
        totalRowsWritten q = 0 \<and> rowGroupRowsWritten q = 0
        \<and> (0 < rowGroupSize q \<longrightarrow> rowGroupInv q)
        \<and> (wfaults pw = [] \<and> plainReader rows \<longrightarrow> unhindered q rows))"
proof -
  have a: "maxNumRows p' = maxNumRows p \<and> rowGroupSize p' = rowGroupSize p
      \<and> (maxNumRows p \<noteq> 0 \<longrightarrow>
            (totalRowsWritten p' = totalRowsWritten p \<or> totalRowsWritten p' \<le> maxNumRows p)
            \<and> (totalRowsWritten p \<le> maxNumRows p \<longrightarrow> totalRowsWritten p' \<le> maxNumRows p))
      \<and> (0 < rowGroupSize p \<and> rowGroupInv p \<longrightarrow>
            rowGroupInv p'
            \<and> (\<exists>gs. rowGroups (writer p') = rowGroups (writer p) @ gs
                  \<and> list_all (\<lambda>g. int (length g) = rowGroupSize p) gs)
            \<and> (snd res = None \<and> rowGroupRowsWritten p < rowGroupSize p \<longrightarrow>
                  rowGroupRowsWritten p' < rowGroupSize p
                  \<and> int (length (rowGroups (writer p')))
                      = int (length (rowGroups (writer p)))
                        + (rowGroupRowsWritten p + fst res) div rowGroupSize p
                  \<and> rowGroupRowsWritten p' = (rowGroupRowsWritten p + fst res) mod rowGroupSize p))
      \<and> (rowGroupSize p \<le> 0 \<longrightarrow> rowGroups (writer p') = rowGroups (writer p))
      \<and> (snd res = None \<longrightarrow>
            0 \<le> fst res \<and> fst res = totalRowsWritten p' - totalRowsWritten p
            \<and> writtenRows (writer p') = writtenRows (writer p) @ take (nat (fst res)) (allRows rows)
            \<and> allRows rows' = drop (nat (fst res)) (allRows rows))
      \<and> (unhindered p rows \<longrightarrow> res = (rowsAllowed p rows, None))
      \<and> (rowGroupSize p \<le> 0 \<or> rowGroupRowsWritten p \<le> rowGroupSize p \<longrightarrow>
            (\<forall>m. snd res \<noteq> Some (Panic m)))"
    if run: "writeRows p rows = (res, p', rows')"
  proof -
    from run have l: "writeRows_loop p rows 0 = (res, p', rows')" by (simp add: writeRows_def)
    from writeRows_loop_within[OF l]
    have w: "writesWithin p p'"
      and c: "snd res = None \<longrightarrow> fst res = totalRowsWritten p' - totalRowsWritten p"
      and g: "snd res = None \<and> 0 < rowGroupSize p \<and> rowGroupRowsWritten p < rowGroupSize p
          \<longrightarrow> rowGroupRowsWritten p' < rowGroupSize p" by simp_all
    from writeRows_loop_rows[OF l]
    have r: "snd res = None \<longrightarrow>
        0 \<le> fst res \<and> nat (fst res) \<le> length (allRows rows)
        \<and> writtenRows (writer p') = writtenRows (writer p) @ take (nat (fst res)) (allRows rows)
        \<and> allRows rows' = drop (nat (fst res)) (allRows rows)"
      and k: "rowGroupSize p \<le> 0 \<longrightarrow> rowGroups (writer p') = rowGroups (writer p)" by simp_all
    have u: "unhindered p rows \<longrightarrow> res = (rowsAllowed p rows, None)"
      using writeRows_loop_unhindered[OF l] by simp
    have f1: "maxNumRows p' = maxNumRows p" and f2: "rowGroupSize p' = rowGroupSize p"
      using w by (simp_all add: writesWithin_def)
    have f3: "maxNumRows p \<noteq> 0 \<longrightarrow>
            (totalRowsWritten p' = totalRowsWritten p \<or> totalRowsWritten p' \<le> maxNumRows p)
            \<and> (totalRowsWritten p \<le> maxNumRows p \<longrightarrow> totalRowsWritten p' \<le> maxNumRows p)"
      using w unfolding writesWithin_def by auto
    have f4: "rowGroupInv p'
            \<and> (\<exists>gs. rowGroups (writer p') = rowGroups (writer p) @ gs
                  \<and> list_all (\<lambda>g. int (length g) = rowGroupSize p) gs)
            \<and> (snd res = None \<and> rowGroupRowsWritten p < rowGroupSize p \<longrightarrow>
                  rowGroupRowsWritten p' < rowGroupSize p
                  \<and> int (length (rowGroups (writer p')))
                      = int (length (rowGroups (writer p)))
                        + (rowGroupRowsWritten p + fst res) div rowGroupSize p
                  \<and> rowGroupRowsWritten p' = (rowGroupRowsWritten p + fst res) mod rowGroupSize p)"
      if G: "0 < rowGroupSize p" and inv: "rowGroupInv p"
    proof -
      from w G inv obtain gs where inv': "rowGroupInv p'"
        and gs: "rowGroups (writer p') = rowGroups (writer p) @ gs"
          "list_all (\<lambda>g. int (length g) = rowGroupSize p) gs"
        unfolding writesWithin_def by blast
      have cnt: "rowGroupRowsWritten p' < rowGroupSize p
                  \<and> int (length (rowGroups (writer p')))
                      = int (length (rowGroups (writer p)))
                        + (rowGroupRowsWritten p + fst res) div rowGroupSize p
                  \<and> rowGroupRowsWritten p' = (rowGroupRowsWritten p + fst res) mod rowGroupSize p"
        if ok: "snd res = None" and less: "rowGroupRowsWritten p < rowGroupSize p"
      proof -
        from g ok G less have less': "rowGroupRowsWritten p' < rowGroupSize p" by simp
        from r ok have n: "0 \<le> fst res" "nat (fst res) \<le> length (allRows rows)"
          and wr: "writtenRows (writer p') = writtenRows (writer p) @ take (nat (fst res)) (allRows rows)"
          by simp_all
        have ln: "int (length (take (nat (fst res)) (allRows rows))) = fst res" using n by simp
        from flush_count[OF inv inv' G f2 gs less' wr] show ?thesis
          unfolding ln using less' gs(1) by simp
      qed
      from inv' gs cnt show ?thesis by blast
    qed
    have f5: "snd res = None \<longrightarrow>
            0 \<le> fst res \<and> fst res = totalRowsWritten p' - totalRowsWritten p
            \<and> writtenRows (writer p') = writtenRows (writer p) @ take (nat (fst res)) (allRows rows)
            \<and> allRows rows' = drop (nat (fst res)) (allRows rows)"
      using r c by simp
    have f6: "rowGroupSize p \<le> 0 \<or> rowGroupRowsWritten p \<le> rowGroupSize p \<longrightarrow>
            (\<forall>m. snd res \<noteq> Some (Panic m))"
      using writeRows_loop_no_panic[OF l] by auto
    from f1 f2 f3 f4 k f5 u f6 show ?thesis by blast
  qed
  have b: "totalRowsWritten q = 0 \<and> rowGroupRowsWritten q = 0
        \<and> (0 < rowGroupSize q \<longrightarrow> rowGroupInv q)
        \<and> (wfaults pw = [] \<and> plainReader rows \<longrightarrow> unhindered q rows)"
    if "rowWriter t (Inr pw) (map withMaxRows ms) = Inr q" "rowGroups pw = []" "buffered pw = []"
    using rowWriter_fresh[OF that] rowWriter_unhindered[OF that(1)] by blast
  from a b show ?thesis by blast
qed

theorem writeRows_limits_witness:
  "rowWriter groupedTable (Inr emptyWriter) (map withMaxRows [4])
     = Inr \<lparr>writer = emptyWriter, rowGroupSize = 2, maxNumRows = 4,
            rowGroupRowsWritten = 0, totalRowsWritten = 0, rowsBuf = 2\<rparr>
   \<and> writeRows \<lparr>writer = emptyWriter, rowGroupSize = 2, maxNumRows = 4,
            rowGroupRowsWritten = 0, totalRowsWritten = 0, rowsBuf = 2\<rparr> fiveRows
       = ((4, None),
          \<lparr>writer = \<lparr>rowGroups = [[[Int64 1], [Int64 2]], [[Int64 3], [Int64 4]]], buffered = [],
                     wfaults = []\<rparr>,
           rowGroupSize = 2, maxNumRows = 4, rowGroupRowsWritten = 0, totalRowsWritten = 4,
           rowsBuf = 2\<rparr>,
          [Rows [[Int64 5]]])
   \<and> unhindered \<lparr>writer = emptyWriter, rowGroupSize = 2, maxNumRows = 4,
            rowGroupRowsWritten = 0, totalRowsWritten = 0, rowsBuf = 2\<rparr> fiveRows
   \<and> rowsAllowed \<lparr>writer = emptyWriter, rowGroupSize = 2, maxNumRows = 4,
            rowGroupRowsWritten = 0, totalRowsWritten = 0, rowsBuf = 2\<rparr> fiveRows = 4
   \<and> rowGroupInv \<lparr>writer = \<lparr>rowGroups = [[[Int64 1], [Int64 2]], [[Int64 3], [Int64 4]]],
                     buffered = [], wfaults = []\<rparr>,
           rowGroupSize = 2, maxNumRows = 4, rowGroupRowsWritten = 0, totalRowsWritten = 4,
           rowsBuf = 2\<rparr>
   \<and> writeRows \<lparr>writer = emptyWriter, rowGroupSize = 0, maxNumRows = 0,
            rowGroupRowsWritten = 0, totalRowsWritten = 0, rowsBuf = 256\<rparr> fiveRows
       = ((5, None),
          \<lparr>writer = \<lparr>rowGroups = [],
                     buffered = [[Int64 1], [Int64 2], [Int64 3], [Int64 4], [Int64 5]],
                     wfaults = []\<rparr>,
           rowGroupSize = 0, maxNumRows = 0, rowGroupRowsWritten = 5, totalRowsWritten = 5,
           rowsBuf = 256\<rparr>,
          [])"
proof -
  let ?p = "\<lparr>writer = emptyWriter, rowGroupSize = 2, maxNumRows = 4,
            rowGroupRowsWritten = 0, totalRowsWritten = 0, rowsBuf = 2\<rparr>"
  let ?p' = "\<lparr>writer = \<lparr>rowGroups = [[[Int64 1], [Int64 2]], [[Int64 3], [Int64 4]]], buffered = [],
                     wfaults = []\<rparr>,
           rowGroupSize = 2, maxNumRows = 4, rowGroupRowsWritten = 0, totalRowsWritten = 4,
           rowsBuf = 2\<rparr>"
  let ?u = "\<lparr>writer = emptyWriter, rowGroupSize = 0, maxNumRows = 0,
            rowGroupRowsWritten = 0, totalRowsWritten = 0, rowsBuf = 256\<rparr>"
  let ?u' = "\<lparr>writer = \<lparr>rowGroups = [],
                     buffered = [[Int64 1], [Int64 2], [Int64 3], [Int64 4], [Int64 5]],
                     wfaults = []\<rparr>,
           rowGroupSize = 0, maxNumRows = 0, rowGroupRowsWritten = 5, totalRowsWritten = 5,
           rowsBuf = 256\<rparr>"
  have e: "rowGroups emptyWriter = []" "buffered emptyWriter = []" "wfaults emptyWriter = []"
    by (simp_all add: emptyWriter_def)
  have pl: "plainReader fiveRows" by (simp add: fiveRows_def)
  note fresh = writeRows_limits[where t = groupedTable and pw = emptyWriter and ms = "[4]"
      and q = ?p and rows = fiveRows, THEN conjunct2]
  from fresh groupedWriter e pl have inv: "rowGroupInv ?p" and un: "unhindered ?p fiveRows"
    by simp_all
  note call = writeRows_limits[where p = ?p and rows = fiveRows and res = "(4, None)"
      and p' = ?p' and rows' = "[Rows [[Int64 5]]]", THEN conjunct1, rule_format,
      OF groupedWriter_run]
  from call inv have inv': "rowGroupInv ?p'" by simp
  from call un have al: "rowsAllowed ?p fiveRows = 4" by simp
  note flat = writeRows_limits[where p = ?u and rows = fiveRows and res = "(5, None)"
      and p' = ?u' and rows' = "[]", THEN conjunct1, rule_format, OF plainWriter_run]
  from flat have "rowGroups (writer ?u') = rowGroups (writer ?u)" by simp
  with groupedWriter groupedWriter_run plainWriter_run un al inv' show ?thesis by simp
qed


text \<open>
  The claim as stated (with \<open>maxNumRows \<noteq> 0\<close> the total never exceeds \<open>maxNumRows\<close>)
  fails for a negative limit: the loop is not entered, nothing is written, and the total
  of a fresh writer, zero, is above the limit.
\<close>

theorem writeRows_negative_limit_counterexample:
  "rowWriter groupedTable (Inr emptyWriter) (map withMaxRows [- 1])
     = Inr \<lparr>writer = emptyWriter, rowGroupSize = 2, maxNumRows = - 1,
            rowGroupRowsWritten = 0, totalRowsWritten = 0, rowsBuf = 2\<rparr>
   \<and> writeRows \<lparr>writer = emptyWriter, rowGroupSize = 2, maxNumRows = - 1,
            rowGroupRowsWritten = 0, totalRowsWritten = 0, rowsBuf = 2\<rparr> fiveRows
       = ((0, None),
          \<lparr>writer = emptyWriter, rowGroupSize = 2, maxNumRows = - 1,
            rowGroupRowsWritten = 0, totalRowsWritten = 0, rowsBuf = 2\<rparr>, fiveRows)
   \<and> maxNumRows \<lparr>writer = emptyWriter, rowGroupSize = 2, maxNumRows = - 1,
            rowGroupRowsWritten = 0, totalRowsWritten = 0, rowsBuf = 2\<rparr> \<noteq> 0
   \<and> maxNumRows \<lparr>writer = emptyWriter, rowGroupSize = 2, maxNumRows = - 1,
            rowGroupRowsWritten = 0, totalRowsWritten = 0, rowsBuf = 2\<rparr>
       < totalRowsWritten \<lparr>writer = emptyWriter, rowGroupSize = 2, maxNumRows = - 1,
            rowGroupRowsWritten = 0, totalRowsWritten = 0, rowsBuf = 2\<rparr>"
  by (simp add: rowWriter_def groupedTable_def withMaxRows_def writeRows_def writeRows_loop.simps)

section \<open>The claim about the schema scan\<close>

text \<open>
  Claim C8, as amended. In a scan via \<open>SchemaIterator\<close> that ends without error, the
  row groups are what the sources (the external sources, then the indexes of the memory
  blocks) hand over, a source handing over any number of them; no row group is of an
  unknown kind; and exactly one record is handed to a callback per row group, in the
  order of the row groups: the record with the single column \<open>name\<close> that holds the
  field names of that row group's schema. Every callback that was called returned no
  error.
\<close>

theorem SchemaIterator_record_per_row_group:
  assumes "SchemaIterator c x callbacks sched t = ((tr, None), t')"
  shows "\<exists>rgs mbs ts t1.
           memoryBlocks t = ((mbs, ts), t1)
         \<and> rgs = concat (map (\<lambda>source. fst (source ts))
                    (sources (db t1) @ map (\<lambda>block. LSM_Scan (index (blocks t1 block))) mbs))
         \<and> fst (collectRowGroups c x t) = (rgs, None)
         \<and> map snd tr = map (\<lambda>rg. schemaNamesRecord (itemFields rg)) rgs
         \<and> length tr = length rgs
         \<and> OtherItem \<notin> set rgs
         \<and> list_all (\<lambda>(k, r). k < length callbacks \<and> (callbacks ! k) r = None) tr"
proof -
  from assms have ne: "callbacks \<noteq> []" and live: "\<not> canceled c"
    by (auto simp: SchemaIterator_def split: if_splits)
  obtain rgs perr t1' where cr: "collectRowGroups c x t = ((rgs, perr), t1')"
    by (metis prod.exhaust)
  obtain tr' werr where wk: "SchemaIterator_workers callbacks sched 0 rgs = (tr', werr)"
    by (cases "SchemaIterator_workers callbacks sched 0 rgs")
  from assms ne live cr wk have e: "werr = None" "perr = None" "tr' = tr"
    by (auto simp: SchemaIterator_def split: option.splits)
  obtain mbs ts t1 where mb: "memoryBlocks t = ((mbs, ts), t1)" by (metis prod.exhaust)
  let ?srcs = "sources (db t1) @ map (\<lambda>block. LSM_Scan (index (blocks t1 block))) mbs"
  from cr mb e have lp: "collectRowGroups_loop ?srcs ts = (rgs, None)"
    by (simp add: collectRowGroups_def)
  note l = collectRowGroups_loop_ok[OF lp]
  note w = SchemaIterator_workers_ok[OF wk[unfolded e]]
  have len: "length tr = length rgs"
    using w by (metis length_map)
  have cbs: "list_all (\<lambda>(k, r). k < length callbacks \<and> (callbacks ! k) r = None) tr"
    using w ne by (auto simp: list_all_iff)
  show ?thesis
    apply (rule exI[of _ rgs], rule exI[of _ mbs], rule exI[of _ ts], rule exI[of _ t1])
    using mb l cr e w len cbs by simp
qed

theorem SchemaIterator_record_per_row_group_witness:
  "\<exists>rgs. fst (collectRowGroups liveCtx 1 scanTable) = (rgs, None) \<and> length rgs = 3
      \<and> map snd [(0::nat, schemaNamesRecord [''a'']), (0, schemaNamesRecord [''a'', ''b'']),
          (0, schemaNamesRecord [''a''])] = map (\<lambda>rg. schemaNamesRecord (itemFields rg)) rgs"
proof -
  obtain t' where r: "SchemaIterator liveCtx 1 [okCallback] (\<lambda>i. 0) scanTable
     = (([(0, schemaNamesRecord [''a'']), (0, schemaNamesRecord [''a'', ''b'']),
         (0, schemaNamesRecord [''a''])], None), t')"
    using scanTable_run by (cases "SchemaIterator liveCtx 1 [okCallback] (\<lambda>i. 0) scanTable") simp
  from SchemaIterator_record_per_row_group[OF r] obtain rgs where
    "fst (collectRowGroups liveCtx 1 scanTable) = (rgs, None)"
    "map snd [(0::nat, schemaNamesRecord [''a'']), (0, schemaNamesRecord [''a'', ''b'']),
          (0, schemaNamesRecord [''a''])] = map (\<lambda>rg. schemaNamesRecord (itemFields rg)) rgs"
    "length [(0::nat, schemaNamesRecord [''a'']), (0, schemaNamesRecord [''a'', ''b'']),
          (0, schemaNamesRecord [''a''])] = length rgs"
    by blast
  then show ?thesis by (intro exI[of _ rgs]) simp
qed

text \<open>
  The claim as stated (one record per source, holding the field names seen in that
  source) fails: a table with two sources, one of which hands over three row groups and
  the other none, gives three records, one per row group and each with the field names
  of its row group.
\<close>

theorem SchemaIterator_per_source_counterexample:
  "length (sources (db scanTable)) + length (memoryBlockIds scanTable) = 2
   \<and> fst (SchemaIterator liveCtx 1 [okCallback] (\<lambda>i. 0) scanTable)
      = ([(0, schemaNamesRecord [''a'']), (0, schemaNamesRecord [''a'', ''b'']),
          (0, schemaNamesRecord [''a''])], None)"
  using scanTable_run
  by (simp add: scanTable_def exampleTable_def memoryBlockIds_def)


section \<open>Claim C6: the Synchronize barrier calls the sink once per batch and finishes once\<close>

text \<open>
  Claim C6, as amended. For producers that each register and then issue \<open>ks ! i\<close>
  \<open>Callback\<close> calls followed by one \<open>Finish\<close> against the barrier, under every
  schedule of their steps: no sink invocation begins while another is running; once
  every producer has returned from \<open>Finish\<close>, \<open>sink.Callback\<close> has been invoked exactly
  \<open>sum_list ks\<close> times and no sink invocation is running; and, provided no \<open>Finish\<close>
  decremented the counter before every producer had registered (S4), \<open>sink.Finish\<close> is
  invoked at most once at any moment of the run, only after every producer has called
  \<open>Finish\<close> and decremented the counter, and exactly once when all of at least one
  producer (S3) have returned.
\<close>

theorem Synchronize_exactly_once:
  assumes run: "run sched (start ks) = Some s"
  shows "\<not> overlap s
     \<and> (list_all (\<lambda>p. p = Finished) (producers s) \<longrightarrow>
           sinkCallbacks s = sum_list ks \<and> sinkRunning s = 0)
     \<and> (\<not> lateFinish s \<longrightarrow>
           sinkFinishes s \<le> 1
           \<and> (0 < sinkFinishes s \<longrightarrow> list_all decremented (producers s))
           \<and> (list_all (\<lambda>p. p = Finished) (producers s) \<and> ks \<noteq> [] \<longrightarrow> sinkFinishes s = 1))"
proof -
  have inv: "barrierInv ks s" by (rule run_inv[OF start_inv run])
  then have len: "length (producers s) = length ks" by (simp add: barrierInv_def)
  from inv have p1: "\<not> overlap s" by (simp add: barrierInv_def)
  have p2: "sinkCallbacks s = sum_list ks \<and> sinkRunning s = 0"
    if fin: "list_all (\<lambda>p. p = Finished) (producers s)"
  proof -
    have n: "cnt inSink (producers s) = 0"
      using fin by (induction "producers s") (auto simp: cnt_zero_iff list_ex_iff list_all_iff)
    from inv left_Finished[OF fin] n show ?thesis by (simp add: barrierInv_def)
  qed
  have z: "0 \<le> cnt (\<lambda>p. p = CounterZero) (producers s)" by (rule cnt_nonneg)
  have p3: "sinkFinishes s \<le> 1" if "\<not> lateFinish s"
    using inv that z by (simp add: barrierInv_def split: if_splits)
  have p4: "list_all decremented (producers s)" if "\<not> lateFinish s" "0 < sinkFinishes s"
  proof -
    from inv that z have "cnt decremented (producers s) = int (length ks)"
      by (simp add: barrierInv_def split: if_splits)
    with len have "cnt decremented (producers s) = int (length (producers s))" by simp
    then show ?thesis by (simp only: cnt_all)
  qed
  have p5: "sinkFinishes s = 1"
    if "\<not> lateFinish s" and fin: "list_all (\<lambda>p. p = Finished) (producers s)" and "ks \<noteq> []"
    using inv that(1,3) zero_Finished[OF fin] dec_Finished[OF fin] len
    by (simp add: barrierInv_def)
  from p1 p2 p3 p4 p5 show ?thesis by blast
qed

theorem Synchronize_exactly_once_witness:
  "run handOver (start [2, 0])
     = Some \<lparr>producers = [Finished, Finished], counter = 0, mutex = None, sinkRunning = 0,
             sinkCallbacks = 2, sinkFinishes = 1, overlap = False, lateFinish = False\<rparr>
   \<and> sinkCallbacks \<lparr>producers = [Finished, Finished], counter = 0, mutex = None, sinkRunning = 0,
             sinkCallbacks = 2, sinkFinishes = 1, overlap = False, lateFinish = False\<rparr>
       = sum_list [2, 0]
   \<and> list_all decremented [Finished, Finished]"
  using Synchronize_exactly_once[OF handOver_run] handOver_run by simp

text \<open>
  The claim as stated (for every set of producers, \<open>sink.Finish\<close> exactly once and only
  after all producers have called \<open>Finish\<close>) fails when a producer registers late, as
  the callers of \<open>TestNoRaceAndSingleFinish\<close> may, registering in their own goroutine:
  in the schedule \<open>early\<close> of two producers without batches the first one's \<open>Finish\<close>
  finds the counter at zero and invokes \<open>sink.Finish\<close> while the second has not
  registered, and the second one's \<open>Finish\<close> invokes it again. With no producer at all
  \<open>sink.Finish\<close> is never invoked.
\<close>

theorem Synchronize_late_registration_counterexample:
  "run (take 4 early) (start [0, 0])
     = Some \<lparr>producers = [InSinkFinish, Unregistered 0], counter = 0, mutex = Some 0,
             sinkRunning = 1, sinkCallbacks = 0, sinkFinishes = 1, overlap = False,
             lateFinish = True\<rparr>
   \<and> run early (start [0, 0])
     = Some \<lparr>producers = [Finished, Finished], counter = 0, mutex = None, sinkRunning = 0,
             sinkCallbacks = 0, sinkFinishes = 2, overlap = False, lateFinish = True\<rparr>
   \<and> run [] (start []) = Some (start [])
   \<and> producers (start []) = [] \<and> sinkFinishes (start []) = 0"
  by (simp add: early_def start_def producerStep_def)

end
